theory Spec2Isabelle
  imports Main "HOL-Library.Sublist"
begin

section \<open>NASA gallery downloader: the fetch, validate and retry pipeline\<close>

text \<open>
  A shallow embedding of \<^verbatim>\<open>src/nasa_image_downloader.py\<close>. Python strings are
  \<open>string\<close> (ASCII), Python ints are \<open>int\<close>. The network, the MD5 digest and
  \<^verbatim>\<open>urllib.parse.urljoin\<close> are library code: they are parameters, collected in the
  record \<open>env\<close>. The file system, the two ledger files and everything the program does
  to the outside (HTTP requests, sleeps, file writes, log lines) are an explicit state,
  the record \<open>world\<close>, that every effectful function takes and returns.
\<close>

subsection \<open>Constants (lines 23-31)\<close>

definition IMAGE_EXTENSIONS :: "string list" where
  "IMAGE_EXTENSIONS = [''.jpg'', ''.jpeg'', ''.png'', ''.gif'', ''.tif'', ''.tiff'', ''.bmp'']"

definition MIN_IMAGE_SIZE :: int where
  "MIN_IMAGE_SIZE = 100"

subsection \<open>Python string operations\<close>

text \<open>\<^verbatim>\<open>str.lower\<close> on ASCII text: the letters A-Z are mapped to a-z, every other
  character is kept.\<close>

definition lower_char :: "char \<Rightarrow> char" where
  "lower_char c =
     (case map_of (zip ''ABCDEFGHIJKLMNOPQRSTUVWXYZ'' ''abcdefghijklmnopqrstuvwxyz'') c of
        Some d \<Rightarrow> d
      | None \<Rightarrow> c)"

definition lower :: "string \<Rightarrow> string" where
  "lower s = map lower_char s"

text \<open>\<^verbatim>\<open>sub in s\<close>: \<open>sub\<close> occurs in \<open>s\<close> as a contiguous substring.\<close>

definition contains :: "string \<Rightarrow> string \<Rightarrow> bool" where
  "contains s sub = sublist sub s"

text \<open>\<^verbatim>\<open>s.startswith(p)\<close>.\<close>

definition startswith :: "string \<Rightarrow> string \<Rightarrow> bool" where
  "startswith s p = prefix p s"

text \<open>\<^verbatim>\<open>s.split("?")[0]\<close>: the text before the first question mark (all of \<open>s\<close>
  when there is none).\<close>

definition split_query :: "string \<Rightarrow> string" where
  "split_query s = takeWhile (\<lambda>c. c \<noteq> CHR ''?'') s"

text \<open>\<^verbatim>\<open>s.strip()\<close>: leading and trailing whitespace removed. In ASCII, Python
  counts the space, the characters 9 to 13 and the separators 28 to 31 as whitespace.\<close>

definition is_space :: "char \<Rightarrow> bool" where
  "is_space c =
     (c \<in> set [CHR '' '', CHR 0x09, CHR 0x0A, CHR 0x0B, CHR 0x0C, CHR 0x0D,
                CHR 0x1C, CHR 0x1D, CHR 0x1E, CHR 0x1F])"

definition strip :: "string \<Rightarrow> string" where
  "strip s = rev (dropWhile is_space (rev (dropWhile is_space s)))"

text \<open>\<^verbatim>\<open>s.rfind(c)\<close>: the index of the last occurrence of \<open>c\<close>, or -1.\<close>

definition rfind :: "string \<Rightarrow> char \<Rightarrow> int" where
  "rfind s c =
     (if c \<in> set s then int (length s) - 1 - int (length (takeWhile (\<lambda>d. d \<noteq> c) (rev s)))
      else - 1)"

subsection \<open>\<^verbatim>\<open>os.path\<close> (the POSIX flavour)\<close>

text \<open>\<^verbatim>\<open>os.path.basename(p)\<close>: the text after the last slash.\<close>

definition basename :: "string \<Rightarrow> string" where
  "basename p = drop (nat (rfind p (CHR ''/'') + 1)) p"

text \<open>
  \<^verbatim>\<open>os.path.splitext(p)\<close>, as \<^verbatim>\<open>genericpath._splitext\<close> computes it: the
  extension starts at the last dot, provided that dot comes after the last slash and
  some character between the slash and the dot is not a dot (leading dots do not start
  an extension). \<open>scan_dots\<close> is its \<^verbatim>\<open>while filenameIndex < dotIndex\<close> loop; it
  answers whether the loop returns the split.
\<close>

function scan_dots :: "string \<Rightarrow> nat \<Rightarrow> nat \<Rightarrow> bool" where
  "scan_dots p filenameIndex dotIndex =
     (if filenameIndex < dotIndex then
        (if filenameIndex < length p \<and> p ! filenameIndex \<noteq> CHR ''.'' then True
         else scan_dots p (Suc filenameIndex) dotIndex)
      else False)"
  by pat_completeness auto
termination
  by (relation "measure (\<lambda>(p, filenameIndex, dotIndex). dotIndex - filenameIndex)") auto

declare scan_dots.simps [simp del]

definition splitext :: "string \<Rightarrow> string \<times> string" where
  "splitext p =
     (let sepIndex = rfind p (CHR ''/'');
          dotIndex = rfind p (CHR ''.'')
      in if dotIndex > sepIndex \<and> scan_dots p (nat (sepIndex + 1)) (nat dotIndex)
         then (take (nat dotIndex) p, drop (nat dotIndex) p)
         else (p, []))"

text \<open>\<^verbatim>\<open>os.path.join(a, b)\<close> for a file name \<open>b\<close>.\<close>

definition path_join :: "string \<Rightarrow> string \<Rightarrow> string" where
  "path_join a b =
     (if startswith b ''/'' then b
      else if a = [] \<or> last a = CHR ''/'' then a @ b
      else a @ ''/'' @ b)"

subsection \<open>The outside world\<close>

text \<open>
  What the Pillow library makes of a file's bytes: \<open>Garbage\<close> when
  \<^verbatim>\<open>Image.open\<close> or \<^verbatim>\<open>img.verify()\<close> raises, \<open>Picture w h\<close> when the file
  parses as an image of that size.
\<close>

datatype content = Garbage | Picture int int

text \<open>The body of an HTTP response as \<^verbatim>\<open>iter_content\<close> delivers it: all of it,
  or a part of it before the stream raises.\<close>

datatype body = Complete content | Interrupted content

text \<open>The outcome of \<^verbatim>\<open>requests.get\<close>: the call raises (connection error,
  timeout), or a response with a status code, a Content-Type header (the empty string
  when the header is absent) and a body arrives.\<close>

datatype http_reply = ConnectionFailed | Reply int string body

text \<open>A parsed HTML page, as the tags BeautifulSoup finds in document order. An
  attribute that the tag does not have is \<open>None\<close>.\<close>

datatype element =
    Meta "string option" "string option" "string option"
  | Img "string option"
  | Anchor "string option"
  | OtherTag

text \<open>The lines the program logs.\<close>

datatype log_line =
    MissingUrl
  | CouldNotExtract string
  | ExtractError string
  | AlreadyExists string
  | NotAnImage string string
  | DownloadedOk string
  | CorruptedFile string nat
  | DownloadError string nat
  | FailedAfter int string
  | ImageTooSmall string int int
  | InvalidImage string
  | NothingToRetry
  | Retrying nat
  | RetriedSummary nat nat

datatype event =
    Sleep nat nat
  | HtmlGet string
  | ImageGet string
  | FileWrite string
  | FileRemove string
  | Log log_line

text \<open>
  The library functions and the network. \<open>clock\<close> counts the HTTP requests made so
  far, and the network's answer may depend on it: the same URL can fail now and
  succeed later.
\<close>

record env =
  md5_hexdigest :: "string \<Rightarrow> string"
  urljoin :: "string \<Rightarrow> string \<Rightarrow> string"
  html_get :: "nat \<Rightarrow> string \<Rightarrow> element list option"
  image_get :: "nat \<Rightarrow> string \<Rightarrow> http_reply"

text \<open>
  The state: the files of the download directory (what Pillow reads in each), the lines
  of \<^verbatim>\<open>downloaded_images.txt\<close> and of \<^verbatim>\<open>failed_downloads.txt\<close>, the request
  counter, and the trace of effects in the order they happen. The two ledgers are
  fields of their own: no image file is named like them, since every name
  \<open>generate_unique_filename\<close> returns ends in an image extension. Reading and
  writing the directory and the ledgers never fails here (\<^verbatim>\<open>main\<close> checks that
  the directory is writable before anything else runs).
\<close>

record world =
  files :: "string \<Rightarrow> content option"
  success_log :: "string list"
  failed_log :: "string list"
  clock :: nat
  trace :: "event list"

definition emit :: "event \<Rightarrow> world \<Rightarrow> world" where
  "emit e s = s\<lparr>trace := trace s @ [e]\<rparr>"

definition logger :: "log_line \<Rightarrow> world \<Rightarrow> world" where
  "logger l s = emit (Log l) s"

text \<open>\<^verbatim>\<open>random_wait(min_sec, max_sec)\<close> (lines 77-78): a sleep of some length
  between the two bounds.\<close>

definition random_wait :: "nat \<Rightarrow> nat \<Rightarrow> world \<Rightarrow> world" where
  "random_wait min_sec max_sec s = emit (Sleep min_sec max_sec) s"

subsection \<open>NamingScheme: \<^verbatim>\<open>generate_unique_filename\<close> (lines 93-99)\<close>

definition generate_unique_filename :: "env \<Rightarrow> string \<Rightarrow> string" where
  "generate_unique_filename e img_url =
     (let img_hash = take 8 (md5_hexdigest e img_url);
          base = basename (split_query img_url);
          (base_name, ext) = splitext base;
          ext = (if ext = [] \<or> lower ext \<notin> set IMAGE_EXTENSIONS then ''.jpg'' else ext)
      in base_name @ ''_'' @ img_hash @ ext)"

subsection \<open>ContentValidator: \<^verbatim>\<open>is_valid_image\<close> (lines 101-113)\<close>

text \<open>
  The function returns a boolean and logs a warning that tells the two rejections
  apart. A file that does not exist makes \<^verbatim>\<open>Image.open\<close> raise, like a file
  that is no image.
\<close>

definition is_valid_image :: "string \<Rightarrow> int \<Rightarrow> world \<Rightarrow> bool \<times> world" where
  "is_valid_image file_path min_size s =
     (case files s file_path of
        None \<Rightarrow> (False, logger (InvalidImage file_path) s)
      | Some Garbage \<Rightarrow> (False, logger (InvalidImage file_path) s)
      | Some (Picture width height) \<Rightarrow>
          if width < min_size \<or> height < min_size
          then (False, logger (ImageTooSmall file_path width height) s)
          else (True, s))"

subsection \<open>ResourceLocator: \<^verbatim>\<open>extract_image_url\<close> (lines 146-179)\<close>

text \<open>Python's \<^verbatim>\<open>not image_url\<close>: the value is \<^verbatim>\<open>None\<close> or the empty
  string.\<close>

definition falsy :: "string option \<Rightarrow> bool" where
  "falsy u = (u = None \<or> u = Some [])"

text \<open>\<^verbatim>\<open>any(ext in u.lower() for ext in IMAGE_EXTENSIONS)\<close>, the test of lines
  170, 225 and 246: some extension occurs somewhere in the lower-cased text.\<close>

definition any_ext_in :: "string \<Rightarrow> bool" where
  "any_ext_in u = list_ex (\<lambda>ext. contains (lower u) ext) IMAGE_EXTENSIONS"

definition HINT_TERMS :: "string list" where
  "HINT_TERMS = [''full'', ''large'', ''orig'', ''high-res'', ''hires'']"

definition has_hint :: "string \<Rightarrow> bool" where
  "has_hint src = list_ex (\<lambda>term. contains (lower src) term) HINT_TERMS"

fun is_meta_property :: "string \<Rightarrow> element \<Rightarrow> bool" where
  "is_meta_property pv (Meta p n c) = (p = Some pv)"
| "is_meta_property pv _ = False"

fun is_meta_name :: "string \<Rightarrow> element \<Rightarrow> bool" where
  "is_meta_name pv (Meta p n c) = (n = Some pv)"
| "is_meta_name pv _ = False"

text \<open>\<^verbatim>\<open>soup.find("meta", property=pv) or soup.find("meta", attrs={"name": pv})\<close>:
  a tag that is found is true in Python whatever its attributes, so the second
  search runs only when the first finds no tag.\<close>

definition find_meta :: "element list \<Rightarrow> string \<Rightarrow> element option" where
  "find_meta soup pv =
     (case find (is_meta_property pv) soup of
        Some t \<Rightarrow> Some t
      | None \<Rightarrow> find (is_meta_name pv) soup)"

text \<open>The loop of lines 152-156 over the two property values.\<close>

fun meta_tier :: "element list \<Rightarrow> string list \<Rightarrow> string option" where
  "meta_tier soup [] = None"
| "meta_tier soup (property_value # rest) =
     (case find_meta soup property_value of
        Some (Meta p n (Some c)) \<Rightarrow> if c \<noteq> [] then Some c else meta_tier soup rest
      | _ \<Rightarrow> meta_tier soup rest)"

fun img_src :: "element \<Rightarrow> string option" where
  "img_src (Img src) = src"
| "img_src _ = None"

fun anchor_href :: "element \<Rightarrow> string option" where
  "anchor_href (Anchor href) = href"
| "anchor_href _ = None"

text \<open>\<^verbatim>\<open>soup.find_all("img", src=True)\<close> and \<^verbatim>\<open>soup.find_all("a", href=True)\<close>,
  as the attribute values in document order.\<close>

definition img_srcs :: "element list \<Rightarrow> string list" where
  "img_srcs soup = List.map_filter img_src soup"

definition anchor_hrefs :: "element list \<Rightarrow> string list" where
  "anchor_hrefs soup = List.map_filter anchor_href soup"

text \<open>Lines 151-173: the search of the parsed page.\<close>

definition pick_image_url :: "env \<Rightarrow> string \<Rightarrow> element list \<Rightarrow> string option" where
  "pick_image_url e image_page_url soup =
     (let image_url = meta_tier soup [''og:image'', ''twitter:image''];
          image_url =
            (if falsy image_url then
               (case find has_hint (img_srcs soup) of
                  Some src \<Rightarrow> Some (urljoin e image_page_url src)
                | None \<Rightarrow> image_url)
             else image_url);
          image_url =
            (if falsy image_url then
               (case img_srcs soup of
                  src # _ \<Rightarrow> Some (urljoin e image_page_url src)
                | [] \<Rightarrow> image_url)
             else image_url);
          image_url =
            (if falsy image_url then
               (case find any_ext_in (anchor_hrefs soup) of
                  Some href \<Rightarrow> Some (urljoin e image_page_url href)
                | None \<Rightarrow> image_url)
             else image_url)
      in image_url)"

text \<open>The request of line 148 and the two \<^verbatim>\<open>except\<close> branches: a failed request
  (\<open>html_get\<close> gives \<open>None\<close>: a network error, a timeout or an error status) returns
  \<^verbatim>\<open>None\<close>.\<close>

definition extract_image_url :: "env \<Rightarrow> string \<Rightarrow> world \<Rightarrow> string option \<times> world" where
  "extract_image_url e image_page_url s =
     (let s1 = emit (HtmlGet image_page_url) (s\<lparr>clock := Suc (clock s)\<rparr>)
      in case html_get e (clock s) image_page_url of
           None \<Rightarrow> (None, logger (ExtractError image_page_url) s1)
         | Some soup \<Rightarrow> (pick_image_url e image_page_url soup, s1))"

subsection \<open>DownloadWorker: \<^verbatim>\<open>download_image\<close> (lines 242-295)\<close>

definition requests_get_image :: "env \<Rightarrow> string \<Rightarrow> world \<Rightarrow> http_reply \<times> world" where
  "requests_get_image e url s =
     (image_get e (clock s) url, emit (ImageGet url) (s\<lparr>clock := Suc (clock s)\<rparr>))"

definition write_file :: "string \<Rightarrow> content \<Rightarrow> world \<Rightarrow> world" where
  "write_file path c s = emit (FileWrite path) (s\<lparr>files := (files s)(path \<mapsto> c)\<rparr>)"

definition remove_file :: "string \<Rightarrow> world \<Rightarrow> world" where
  "remove_file path s = emit (FileRemove path) (s\<lparr>files := (files s)(path := None)\<rparr>)"

definition append_success :: "string \<Rightarrow> world \<Rightarrow> world" where
  "append_success url s = s\<lparr>success_log := success_log s @ [url]\<rparr>"

definition append_failed :: "string \<Rightarrow> world \<Rightarrow> world" where
  "append_failed url s = s\<lparr>failed_log := failed_log s @ [url]\<rparr>"

text \<open>
  One pass through the body of the \<^verbatim>\<open>for attempt in range(max_retries)\<close> loop
  (lines 260-291). The boolean says whether the function returned \<^verbatim>\<open>True\<close> from
  inside the loop (line 281); otherwise the loop goes on with the next attempt.
  \<^verbatim>\<open>raise_for_status\<close> raises for the status codes 400 to 599.
\<close>

definition attempt_once ::
  "env \<Rightarrow> string \<Rightarrow> string \<Rightarrow> int \<Rightarrow> int \<Rightarrow> nat \<Rightarrow> world \<Rightarrow> bool \<times> world" where
  "attempt_once e actual_img_url img_name min_img_size max_retries attempt s =
     (let s1 = random_wait 1 3 s;
          (reply, s2) = requests_get_image e actual_img_url s1
      in case reply of
           ConnectionFailed \<Rightarrow>
             (False, random_wait 3 7 (logger (DownloadError actual_img_url (attempt + 1)) s2))
         | Reply status content_type b \<Rightarrow>
             if 400 \<le> status \<and> status < 600 then
               (False, random_wait 3 7 (logger (DownloadError actual_img_url (attempt + 1)) s2))
             else if \<not> startswith content_type ''image/'' then
               (False, logger (NotAnImage actual_img_url content_type) s2)
             else
               (case b of
                  Interrupted c \<Rightarrow>
                    (False, random_wait 3 7 (logger (DownloadError actual_img_url (attempt + 1))
                       (write_file img_name c s2)))
                | Complete c \<Rightarrow>
                    (let s3 = write_file img_name c s2;
                         (ok, s4) = is_valid_image img_name min_img_size s3
                     in if ok then
                          (True, append_success actual_img_url (logger (DownloadedOk img_name) s4))
                        else
                          (let s5 = logger (CorruptedFile img_name (attempt + 1)) s4
                           in (False, if files s5 img_name \<noteq> None
                                      then remove_file img_name s5 else s5)))))"

function retry_loop ::
  "env \<Rightarrow> string \<Rightarrow> string \<Rightarrow> int \<Rightarrow> int \<Rightarrow> nat \<Rightarrow> world \<Rightarrow> bool \<times> world" where
  "retry_loop e actual_img_url img_name min_img_size max_retries attempt s =
     (if int attempt < max_retries then
        (let r = attempt_once e actual_img_url img_name min_img_size max_retries attempt s
         in if fst r then r
            else retry_loop e actual_img_url img_name min_img_size max_retries
                   (Suc attempt) (snd r))
      else (False, s))"
  by pat_completeness auto
termination
  by (relation "measure (\<lambda>(e, u, p, m, max_retries, attempt, s). nat (max_retries - int attempt))")
    auto

declare retry_loop.simps [simp del]

text \<open>Lines 255-295: the part of \<^verbatim>\<open>download_image\<close> that runs once the image URL
  is known.\<close>

definition download_resolved ::
  "env \<Rightarrow> string \<Rightarrow> string \<Rightarrow> int \<Rightarrow> int \<Rightarrow> world \<Rightarrow> bool \<times> world" where
  "download_resolved e actual_img_url download_dir min_img_size max_retries s =
     (let img_name = path_join download_dir (generate_unique_filename e actual_img_url);
          (valid, s1) =
            (if files s img_name \<noteq> None then is_valid_image img_name min_img_size s
             else (False, s))
      in if valid then (True, logger (AlreadyExists img_name) s1)
         else
           (let (done, s2) = retry_loop e actual_img_url img_name min_img_size max_retries 0 s1
            in if done then (True, s2)
               else (False, append_failed actual_img_url
                              (logger (FailedAfter max_retries actual_img_url) s2))))"

definition download_image ::
  "env \<Rightarrow> string \<Rightarrow> string \<Rightarrow> int \<Rightarrow> int \<Rightarrow> world \<Rightarrow> bool \<times> world" where
  "download_image e img_url download_dir min_img_size max_retries s =
     (if img_url = [] then (False, logger MissingUrl s)
      else if \<not> any_ext_in img_url then
        (let (actual_img_url, s1) = extract_image_url e img_url s
         in case actual_img_url of
              None \<Rightarrow> (False, append_failed img_url (logger (CouldNotExtract img_url) s1))
            | Some u \<Rightarrow>
                if u = [] then
                  (False, append_failed img_url (logger (CouldNotExtract img_url) s1))
                else download_resolved e u download_dir min_img_size max_retries s1)
      else download_resolved e img_url download_dir min_img_size max_retries s)"

subsection \<open>Orchestrator and ResumeController (lines 297-358)\<close>

record args =
  dir :: string
  workers :: int
  retries :: int
  min_size :: int

text \<open>
  The worker pool. Each worker runs \<open>download_image\<close> on one URL; the pool is modelled
  by running the workers one at a time, to completion, in the order in which they
  complete. The result list is what \<^verbatim>\<open>as_completed\<close> then yields.
\<close>

fun run_workers :: "env \<Rightarrow> args \<Rightarrow> string list \<Rightarrow> world \<Rightarrow> bool list \<times> world" where
  "run_workers e a [] s = ([], s)"
| "run_workers e a (url # urls) s =
     (let (r, s1) = download_image e url (dir a) (min_size a) (retries a) s;
          (rs, s2) = run_workers e a urls s1
      in (r # rs, s2))"

text \<open>Lines 303-322 of \<^verbatim>\<open>process_category\<close>: the counts of the pool over the links
  found.\<close>

definition process_links :: "env \<Rightarrow> args \<Rightarrow> string list \<Rightarrow> world \<Rightarrow> (nat \<times> nat) \<times> world" where
  "process_links e a image_links s =
     (let (rs, s1) = run_workers e a image_links s
      in ((length (filter (\<lambda>r. r) rs), length (filter (\<lambda>r. \<not> r) rs)), s1))"

text \<open>
  \<^verbatim>\<open>retry_failed_images\<close> (lines 324-358). \<open>order\<close> is the order in which the
  futures complete: a permutation of the indices \<open>0..<length urls\<close>, chosen by the
  scheduler and the network, where the \<open>i\<close>-th future to complete is the one submitted
  for \<open>urls ! (order ! i)\<close>. Line 344 enumerates the completed futures, so \<open>i\<close> counts
  completions, and lines 349 and 353 append \<open>urls ! i\<close>. The ledger file exists when
  the function runs (\<^verbatim>\<open>main\<close> creates it at line 375), and a worker raises nothing
  here, so the branches of lines 326-328 and 351-354 are not taken.
\<close>

definition temp_failed_of :: "string list \<Rightarrow> bool list \<Rightarrow> string list" where
  "temp_failed_of urls rs =
     map (\<lambda>(i, r). urls ! i) (filter (\<lambda>(i, r). \<not> r) (zip [0..<length rs] rs))"

definition retry_failed_images :: "env \<Rightarrow> args \<Rightarrow> nat list \<Rightarrow> world \<Rightarrow> world" where
  "retry_failed_images e a order s =
     (let urls = filter (\<lambda>l. l \<noteq> []) (map strip (failed_log s))
      in if urls = [] then logger NothingToRetry s
         else
           (let s0 = logger (Retrying (length urls)) s;
                (rs, s1) = run_workers e a (map (\<lambda>j. urls ! j) order) s0;
                temp_failed = temp_failed_of urls rs;
                s2 = s1\<lparr>failed_log := temp_failed\<rparr>
            in logger (RetriedSummary (length (filter (\<lambda>r. r) rs)) (length temp_failed)) s2))"

subsection \<open>Vocabulary for the properties\<close>

text \<open>The events that a call adds to the trace.\<close>

definition new_events :: "world \<Rightarrow> world \<Rightarrow> event list" where
  "new_events s s' = drop (length (trace s)) (trace s')"

fun is_image_get :: "event \<Rightarrow> bool" where
  "is_image_get (ImageGet u) = True"
| "is_image_get _ = False"

fun is_html_get :: "event \<Rightarrow> bool" where
  "is_html_get (HtmlGet u) = True"
| "is_html_get _ = False"

fun is_file_change :: "event \<Rightarrow> bool" where
  "is_file_change (FileWrite p) = True"
| "is_file_change (FileRemove p) = True"
| "is_file_change _ = False"

definition count_image_gets :: "event list \<Rightarrow> nat" where
  "count_image_gets evs = length (filter is_image_get evs)"

definition count_html_gets :: "event list \<Rightarrow> nat" where
  "count_html_gets evs = length (filter is_html_get evs)"

definition count_file_changes :: "event list \<Rightarrow> nat" where
  "count_file_changes evs = length (filter is_file_change evs)"

text \<open>The file at \<open>p\<close> exists and passes \<open>is_valid_image\<close> at the minimum \<open>m\<close>.\<close>

definition valid_at :: "string \<Rightarrow> int \<Rightarrow> world \<Rightarrow> bool" where
  "valid_at p m s =
     (case files s p of
        Some (Picture w h) \<Rightarrow> m \<le> w \<and> m \<le> h
      | _ \<Rightarrow> False)"

text \<open>The path at which \<open>download_image\<close> stores the image of a URL (line 255).\<close>

definition target_path :: "env \<Rightarrow> string \<Rightarrow> string \<Rightarrow> string" where
  "target_path e download_dir actual_img_url =
     path_join download_dir (generate_unique_filename e actual_img_url)"

text \<open>A reply that one pass of the retry loop turns into a success: no error status,
  an image Content-Type, a complete body, and an image of at least the minimum size.\<close>

definition acceptable :: "int \<Rightarrow> http_reply \<Rightarrow> bool" where
  "acceptable m reply =
     (case reply of
        Reply status content_type (Complete (Picture w h)) \<Rightarrow>
          \<not> (400 \<le> status \<and> status < 600) \<and> startswith content_type ''image/'' \<and>
          m \<le> w \<and> m \<le> h
      | _ \<Rightarrow> False)"

text \<open>Lines 246-254 of \<open>download_image\<close> on their own: the image URL that the worker goes
  on with, and the state after finding it.\<close>

definition resolution :: "env \<Rightarrow> string \<Rightarrow> world \<Rightarrow> string option \<times> world" where
  "resolution e img_url s =
     (if \<not> any_ext_in img_url then extract_image_url e img_url s else (Some img_url, s))"

text \<open>
  The spec's test "the reference's path/extension matches a known image-extension set",
  with the extension taken as the NamingScheme takes it (lines 95-97): the extension of
  the base name of the text before the query.
\<close>

definition spec_is_direct_image :: "string \<Rightarrow> bool" where
  "spec_is_direct_image ref =
     (let (base_name, ext) = splitext (basename (split_query ref))
      in lower ext \<in> set IMAGE_EXTENSIONS)"






text \<open>"No network changes" for the pages: what a page request returns does not depend on
  when it is made.\<close>

definition stable_pages :: "env \<Rightarrow> bool" where
  "stable_pages e = (\<forall>t u. html_get e t u = html_get e 0 u)"

text \<open>The candidate \<open>u\<close> resolves to a URL whose target file is there and valid: the
  condition of lines 255-256 under which the worker returns at line 258.\<close>

definition already_present :: "env \<Rightarrow> args \<Rightarrow> string \<Rightarrow> world \<Rightarrow> bool" where
  "already_present e a u s =
     (u \<noteq> [] \<and>
      (case fst (resolution e u s) of
         None \<Rightarrow> False
       | Some x \<Rightarrow> x \<noteq> [] \<and> valid_at (target_path e (dir a) x) (min_size a) s))"

subsection \<open>Example worlds and environments\<close>

definition fresh_world :: world where
  "fresh_world = \<lparr>files = Map.empty, success_log = [], failed_log = [], clock = 0, trace = []\<rparr>"

definition example_args :: args where
  "example_args = \<lparr>dir = ''gallery'', workers = 3, retries = 3, min_size = 100\<rparr>"

definition example_page :: "element list" where
  "example_page =
     [Meta (Some ''og:image'') None (Some ''https://cdn.example.com/img/full_001.JPG?size=orig'')]"

definition hires_page :: "element list" where
  "hires_page =
     [Img (Some ''https://cdn.example.com/img/thumb_7.png''),
      Img (Some ''https://cdn.example.com/img/hires_7.png'')]"

text \<open>
  A small network: a gallery page whose \<open>og:image\<close> tag names an image on another
  host, a gallery page with two images and no metadata, the image of the first page
  (800 by 600), a 50 by 50 image, and a URL that answers with an HTML page; every other
  request fails. \<open>urljoin\<close> is given for absolute references and for the empty one,
  where \<^verbatim>\<open>urllib\<close> returns the reference and the base.
\<close>

definition example_env :: env where
  "example_env =
     \<lparr>md5_hexdigest = (\<lambda>u. ''0123456789abcdef0123456789abcdef''),
      urljoin = (\<lambda>base ref. if ref = [] then base else ref),
      html_get = (\<lambda>t u.
        if u = ''https://example.com/page/x'' then Some example_page
        else if u = ''https://example.com/page/y'' then Some hires_page
        else None),
      image_get = (\<lambda>t u.
        if u = ''https://cdn.example.com/img/full_001.JPG?size=orig''
          then Reply 200 ''image/jpeg'' (Complete (Picture 800 600))
        else if u = ''https://example.com/small.png''
          then Reply 200 ''image/png'' (Complete (Picture 50 50))
        else if u = ''https://example.com/doc.jpg''
          then Reply 200 ''text/html'' (Complete Garbage)
        else ConnectionFailed)\<rparr>"

text \<open>What \<^verbatim>\<open>hashlib\<close>'s \<^verbatim>\<open>hexdigest()\<close> returns for MD5: 32 lower-case
  hexadecimal digits.\<close>

definition is_hexdigest :: "string \<Rightarrow> bool" where
  "is_hexdigest h = (length h = 32 \<and> set h \<subseteq> set ''0123456789abcdef'')"

section \<open>Properties\<close>

subsection \<open>Base names and extensions\<close>

lemma rfind_absent: "c \<notin> set s \<Longrightarrow> rfind s c = - 1"
  by (simp add: rfind_def)

lemma rfind_last: "c \<notin> set t \<Longrightarrow> rfind (s @ c # t) c = int (length s)"
proof -
  assume a: "c \<notin> set t"
  have "takeWhile (\<lambda>d. d \<noteq> c) (rev t @ c # rev s) = rev t"
    using a by (simp add: takeWhile_append)
  then show ?thesis by (simp add: rfind_def)
qed

lemma basename_dir:
  assumes "CHR ''/'' \<notin> set b" and "d = [] \<or> last d = CHR ''/''"
  shows "basename (d @ b) = b"
proof (cases "d = []")
  case True
  then show ?thesis using assms by (simp add: basename_def rfind_absent)
next
  case False
  with assms obtain d' where d: "d = d' @ [CHR ''/'']"
    by (metis append_butlast_last_id)
  have "rfind (d' @ CHR ''/'' # b) (CHR ''/'') = int (length d')"
    using assms(1) by (rule rfind_last)
  moreover have "nat (int (length d') + 1) = Suc (length d')" by simp
  ultimately show ?thesis by (simp add: basename_def d)
qed

lemma split_query_prefix:
  assumes "CHR ''?'' \<notin> set p" and "q = [] \<or> hd q = CHR ''?''"
  shows "split_query (p @ q) = p"
proof (cases q)
  case Nil
  then show ?thesis using assms by (auto simp: split_query_def)
next
  case (Cons c cs)
  then show ?thesis using assms by (auto simp: split_query_def takeWhile_append)
qed

lemma scan_dots_iff:
  "scan_dots p i j \<longleftrightarrow> (\<exists>k. i \<le> k \<and> k < j \<and> k < length p \<and> p ! k \<noteq> CHR ''.'')"
proof (induction p i j rule: scan_dots.induct)
  case (1 p i j)
  show ?case
  proof (cases "i < j")
    case False
    then show ?thesis by (subst scan_dots.simps) auto
  next
    case True
    show ?thesis
    proof (cases "i < length p \<and> p ! i \<noteq> CHR ''.''")
      case hit: True
      then show ?thesis using True by (subst scan_dots.simps) auto
    next
      case miss: False
      have "scan_dots p i j = scan_dots p (Suc i) j"
        using True miss by (subst scan_dots.simps) auto
      also have "\<dots> \<longleftrightarrow> (\<exists>k. Suc i \<le> k \<and> k < j \<and> k < length p \<and> p ! k \<noteq> CHR ''.'')"
        using "1.IH" True miss by simp
      also have "\<dots> \<longleftrightarrow> (\<exists>k. i \<le> k \<and> k < j \<and> k < length p \<and> p ! k \<noteq> CHR ''.'')"
        using miss by (metis Suc_leD Suc_leI le_neq_implies_less)
      finally show ?thesis .
    qed
  qed
qed

lemma splitext_ext:
  assumes "CHR ''/'' \<notin> set (stem @ x)" and "CHR ''.'' \<notin> set x"
    and "\<exists>c \<in> set stem. c \<noteq> CHR ''.''"
  shows "splitext (stem @ ''.'' @ x) = (stem, ''.'' @ x)"
proof -
  let ?p = "stem @ CHR ''.'' # x"
  have sep: "rfind ?p (CHR ''/'') = - 1"
    using assms(1) by (simp add: rfind_absent)
  have dot: "rfind ?p (CHR ''.'') = int (length stem)"
    using assms(2) by (rule rfind_last)
  obtain k where k: "k < length stem" "stem ! k \<noteq> CHR ''.''"
    using assms(3) by (metis in_set_conv_nth)
  have "scan_dots ?p 0 (length stem)"
    unfolding scan_dots_iff using k by (auto simp: nth_append intro!: exI [of _ k])
  then show ?thesis
    by (simp add: splitext_def sep dot)
qed

lemma splitext_none:
  assumes "CHR ''/'' \<notin> set (dots @ rest)" and "CHR ''.'' \<notin> set rest"
    and "set dots \<subseteq> {CHR ''.''}"
  shows "splitext (dots @ rest) = (dots @ rest, [])"
proof (cases "dots = []")
  case True
  then show ?thesis using assms by (simp add: splitext_def rfind_absent)
next
  case False
  then obtain ds where ds: "dots = ds @ [CHR ''.'']"
    using assms(3) by (metis append_butlast_last_id last_in_set singletonD subsetD)
  let ?p = "dots @ rest"
  have dot: "rfind ?p (CHR ''.'') = int (length ds)"
    using rfind_last [OF assms(2), of ds] by (simp add: ds)
  have "set ds \<subseteq> {CHR ''.''}"
    using assms(3) ds by simp
  then have "\<And>k. k < length ds \<Longrightarrow> ds ! k = CHR ''.''"
    by (meson nth_mem singletonD subsetD)
  then have "\<not> scan_dots ?p 0 (length ds)"
    unfolding scan_dots_iff using ds by (auto simp: nth_append)
  then show ?thesis
    using assms(1) by (simp add: splitext_def dot rfind_absent del: append_assoc)
qed


lemma lower_append: "lower (a @ b) = lower a @ lower b"
  by (simp add: lower_def)

subsection \<open>Effects of one attempt, of the retry loop and of the download phase\<close>

lemmas effect_defs = emit_def logger_def random_wait_def requests_get_image_def write_file_def
  remove_file_def append_success_def append_failed_def

lemma count_append [simp]:
  "count_image_gets (a @ b) = count_image_gets a + count_image_gets b"
  "count_html_gets (a @ b) = count_html_gets a + count_html_gets b"
  "count_file_changes (a @ b) = count_file_changes a + count_file_changes b"
  by (simp_all add: count_image_gets_def count_html_gets_def count_file_changes_def)

lemma count_Nil [simp]:
  "count_image_gets [] = 0" "count_html_gets [] = 0" "count_file_changes [] = 0"
  by (simp_all add: count_image_gets_def count_html_gets_def count_file_changes_def)

lemma count_Cons [simp]:
  "count_image_gets (x # a) = (if is_image_get x then 1 else 0) + count_image_gets a"
  "count_html_gets (x # a) = (if is_html_get x then 1 else 0) + count_html_gets a"
  "count_file_changes (x # a) = (if is_file_change x then 1 else 0) + count_file_changes a"
  by (simp_all add: count_image_gets_def count_html_gets_def count_file_changes_def)

lemma new_events_append [simp]: "trace s' = trace s @ evs \<Longrightarrow> new_events s s' = evs"
  by (simp add: new_events_def)

lemma is_valid_image_fst: "fst (is_valid_image p m s) = valid_at p m s"
  by (simp add: is_valid_image_def valid_at_def split: option.splits content.splits)

lemma is_valid_image_snd:
  "\<exists>evs. trace (snd (is_valid_image p m s)) = trace s @ evs \<and> (\<forall>x\<in>set evs. \<exists>l. x = Log l)"
  "files (snd (is_valid_image p m s)) = files s"
  "success_log (snd (is_valid_image p m s)) = success_log s"
  "failed_log (snd (is_valid_image p m s)) = failed_log s"
  "clock (snd (is_valid_image p m s)) = clock s"
  by (simp_all add: is_valid_image_def effect_defs split: option.splits content.splits)

lemma attempt_once_trace:
  assumes "attempt_once e u nm m k i s = (r, s')"
  shows "\<exists>evs. trace s' = trace s @ evs \<and> count_image_gets evs = 1 \<and> count_html_gets evs = 0"
  using assms unfolding attempt_once_def is_valid_image_def
  by (auto simp: Let_def effect_defs split: http_reply.splits body.splits option.splits content.splits if_splits prod.splits)

lemma attempt_once_ledgers:
  assumes "attempt_once e u nm m k i s = (r, s')"
  shows "failed_log s' = failed_log s"
    and "success_log s' = (if r then success_log s @ [u] else success_log s)"
    and "clock s' = Suc (clock s)"
  using assms unfolding attempt_once_def is_valid_image_def
  by (auto simp: Let_def effect_defs split: http_reply.splits body.splits option.splits content.splits if_splits prod.splits)

lemma attempt_once_files:
  assumes "attempt_once e u nm m k i s = (r, s')"
  shows "p \<noteq> nm \<Longrightarrow> files s' p = files s p"
    and "r \<Longrightarrow> valid_at nm m s'"
  using assms unfolding attempt_once_def is_valid_image_def valid_at_def
  by (auto simp: Let_def effect_defs split: http_reply.splits body.splits option.splits content.splits if_splits prod.splits)

lemma attempt_once_result:
  assumes "attempt_once e u nm m k i s = (r, s')"
  shows "r = acceptable m (image_get e (clock s) u)"
  using assms unfolding attempt_once_def is_valid_image_def acceptable_def
  by (auto simp: Let_def effect_defs split: http_reply.splits body.splits option.splits content.splits if_splits prod.splits)


lemma retry_loop_invariant [consumes 1, case_names stop hit miss]:
  assumes run: "retry_loop e u nm m k i s = (r, s')"
    and stop: "\<And>i s. \<not> int i < k \<Longrightarrow> P i s False s"
    and hit: "\<And>i s s1. int i < k \<Longrightarrow> attempt_once e u nm m k i s = (True, s1) \<Longrightarrow> P i s True s1"
    and miss: "\<And>i s s1 r s'. int i < k \<Longrightarrow> attempt_once e u nm m k i s = (False, s1) \<Longrightarrow>
                 retry_loop e u nm m k (Suc i) s1 = (r, s') \<Longrightarrow> P (Suc i) s1 r s' \<Longrightarrow> P i s r s'"
  shows "P i s r s'"
  using run
proof (induction n \<equiv> "nat (k - int i)" arbitrary: i s r s')
  case 0
  then have no: "\<not> int i < k" by simp
  with "0.prems" have "r = False" "s' = s" by (simp_all add: retry_loop.simps)
  then show ?case using stop [OF no, of s] by simp
next
  case (Suc n)
  then have yes: "int i < k" by linarith
  obtain r1 s1 where a: "attempt_once e u nm m k i s = (r1, s1)"
    by (cases "attempt_once e u nm m k i s")
  show ?case
  proof (cases r1)
    case True
    with Suc.prems a yes have "r = True" "s' = s1"
      by (simp_all add: retry_loop.simps)
    moreover have "P i s True s1"
      using a True by (intro hit [OF yes]) simp
    ultimately show ?thesis by simp
  next
    case False
    with Suc.prems a yes have rl: "retry_loop e u nm m k (Suc i) s1 = (r, s')"
      by (simp add: retry_loop.simps)
    have "n = nat (k - int (Suc i))" using Suc.hyps(2) by linarith
    then have "P (Suc i) s1 r s'" using rl by (rule Suc.hyps(1))
    moreover have "attempt_once e u nm m k i s = (False, s1)"
      using a False by simp
    ultimately show ?thesis
      using rl by (intro miss [OF yes])
  qed
qed

lemma retry_loop_trace:
  assumes "retry_loop e u nm m k i s = (r, s')"
  shows "\<exists>evs. trace s' = trace s @ evs \<and> count_image_gets evs \<le> nat (k - int i)
            \<and> count_html_gets evs = 0"
  using assms
proof (induction rule: retry_loop_invariant)
  case (stop i s)
  then show ?case by simp
next
  case (hit i s s1)
  from attempt_once_trace [OF hit(2)] hit(1) show ?case by auto
next
  case (miss i s s1 r s')
  from attempt_once_trace [OF miss(2)] obtain ev1 where
    "trace s1 = trace s @ ev1" "count_image_gets ev1 = 1" "count_html_gets ev1 = 0"
    by blast
  moreover from miss(4) obtain ev2 where
    "trace s' = trace s1 @ ev2" "count_image_gets ev2 \<le> nat (k - int (Suc i))"
    "count_html_gets ev2 = 0"
    by blast
  ultimately show ?case using miss(1) by auto
qed

lemma retry_loop_ledgers:
  assumes "retry_loop e u nm m k i s = (r, s')"
  shows "failed_log s' = failed_log s
       \<and> success_log s' = (if r then success_log s @ [u] else success_log s)"
  using assms
proof (induction rule: retry_loop_invariant)
  case (stop i s)
  then show ?case by simp
next
  case (hit i s s1)
  then show ?case using attempt_once_ledgers [OF hit(2)] by simp
next
  case (miss i s s1 r s')
  then show ?case using attempt_once_ledgers [OF miss(2)] by simp
qed

lemma retry_loop_files:
  assumes "retry_loop e u nm m k i s = (r, s')"
  shows "(\<forall>p. p \<noteq> nm \<longrightarrow> files s' p = files s p) \<and> (r \<longrightarrow> valid_at nm m s')"
  using assms
proof (induction rule: retry_loop_invariant)
  case (stop i s)
  then show ?case by simp
next
  case (hit i s s1)
  then show ?case using attempt_once_files [OF hit(2)] by simp
next
  case (miss i s s1 r s')
  then show ?case using attempt_once_files(1) [OF miss(2)] by simp
qed

lemma retry_loop_always_failing:
  assumes "retry_loop e u nm m k i s = (r, s')"
    and "\<And>t. \<not> acceptable m (image_get e t u)"
  shows "\<not> r \<and> count_image_gets (new_events s s') = nat (k - int i)"
  using assms(1)
proof (induction rule: retry_loop_invariant)
  case (stop i s)
  then show ?case by (simp add: new_events_def)
next
  case (hit i s s1)
  then show ?case using attempt_once_result [OF hit(2)] assms(2) by simp
next
  case (miss i s s1 r s')
  from attempt_once_trace [OF miss(2)] obtain ev1 where
    ev1: "trace s1 = trace s @ ev1" "count_image_gets ev1 = 1"
    by blast
  from retry_loop_trace [OF miss(3)] obtain ev2 where
    ev2: "trace s' = trace s1 @ ev2"
    by blast
  from miss(4) ev2 have "count_image_gets ev2 = nat (k - int (Suc i))" by simp
  moreover have "new_events s s' = ev1 @ ev2" using ev1 ev2 by simp
  ultimately show ?case using miss(1,4) ev1 by auto
qed


lemma is_valid_image_cases:
  "\<exists>l. is_valid_image p m s = (valid_at p m s, if valid_at p m s then s else logger l s)"
  by (auto simp: is_valid_image_def valid_at_def split: option.splits content.splits)

lemma valid_at_files: "files s' p = files s p \<Longrightarrow> valid_at p m s' = valid_at p m s"
  by (simp add: valid_at_def)

lemma valid_at_exists: "valid_at p m s \<Longrightarrow> files s p \<noteq> None"
  by (auto simp: valid_at_def split: option.splits)

lemma download_resolved_skip:
  assumes "valid_at (target_path e download_dir a) m s"
  shows "download_resolved e a download_dir m k s =
           (True, logger (AlreadyExists (target_path e download_dir a)) s)"
proof -
  from is_valid_image_cases [of "target_path e download_dir a" m s] assms
  have "is_valid_image (target_path e download_dir a) m s = (True, s)" by auto
  then show ?thesis
    using valid_at_exists [OF assms]
    by (simp add: download_resolved_def target_path_def Let_def)
qed

text \<open>When the target is not already there, the call is the retry loop, run in a state
  \<open>s1\<close> that differs from \<open>s\<close> by at most one warning.\<close>

lemma download_resolved_run:
  assumes "\<not> valid_at (target_path e download_dir a) m s"
  obtains s1 logs where "trace s1 = trace s @ map Log logs" "files s1 = files s"
    "success_log s1 = success_log s" "failed_log s1 = failed_log s" "clock s1 = clock s"
    "download_resolved e a download_dir m k s =
       (let (done, s2) = retry_loop e a (target_path e download_dir a) m k 0 s1
        in if done then (True, s2)
           else (False, append_failed a (logger (FailedAfter k a) s2)))"
proof (cases "files s (target_path e download_dir a) \<noteq> None")
  case False
  then have "download_resolved e a download_dir m k s =
       (let (done, s2) = retry_loop e a (target_path e download_dir a) m k 0 s
        in if done then (True, s2)
           else (False, append_failed a (logger (FailedAfter k a) s2)))"
    by (simp add: download_resolved_def target_path_def Let_def)
  then show ?thesis
    using that [of s "[]"] by simp
next
  case True
  from is_valid_image_cases [of "target_path e download_dir a" m s] assms
  obtain l where "is_valid_image (target_path e download_dir a) m s = (False, logger l s)"
    by auto
  then have "download_resolved e a download_dir m k s =
       (let (done, s2) = retry_loop e a (target_path e download_dir a) m k 0 (logger l s)
        in if done then (True, s2)
           else (False, append_failed a (logger (FailedAfter k a) s2)))"
    using True by (simp add: download_resolved_def target_path_def Let_def)
  then show ?thesis
    using that [of "logger l s" "[l]"] by (simp add: effect_defs)
qed

lemma count_logs [simp]:
  "count_image_gets (map Log logs) = 0" "count_html_gets (map Log logs) = 0"
  "count_file_changes (map Log logs) = 0"
  by (induction logs) simp_all

lemma download_resolved_trace:
  assumes "download_resolved e a download_dir m k s = (r, s')"
  shows "\<exists>evs. trace s' = trace s @ evs \<and> count_image_gets evs \<le> nat k \<and> count_html_gets evs = 0"
proof (cases "valid_at (target_path e download_dir a) m s")
  case True
  from download_resolved_skip [OF True, of k] assms show ?thesis
    by (auto simp: effect_defs)
next
  case False
  from download_resolved_run [OF False, of k] obtain s1 logs where
    s1: "trace s1 = trace s @ map Log logs"
    and run: "download_resolved e a download_dir m k s =
       (let (done, s2) = retry_loop e a (target_path e download_dir a) m k 0 s1
        in if done then (True, s2)
           else (False, append_failed a (logger (FailedAfter k a) s2)))"
    by blast
  obtain d s2 where rl: "retry_loop e a (target_path e download_dir a) m k 0 s1 = (d, s2)"
    by (cases "retry_loop e a (target_path e download_dir a) m k 0 s1")
  from retry_loop_trace [OF rl] obtain evs where
    "trace s2 = trace s1 @ evs" "count_image_gets evs \<le> nat k" "count_html_gets evs = 0"
    by auto
  with s1 run rl assms show ?thesis
    by (cases d) (auto simp: effect_defs)
qed

lemma download_resolved_ledgers:
  assumes "download_resolved e a download_dir m k s = (r, s')"
  shows "(r \<longrightarrow> failed_log s' = failed_log s \<and>
              success_log s' = (if valid_at (target_path e download_dir a) m s
                                then success_log s else success_log s @ [a]))
       \<and> (\<not> r \<longrightarrow> failed_log s' = failed_log s @ [a] \<and> success_log s' = success_log s)"
proof (cases "valid_at (target_path e download_dir a) m s")
  case True
  from download_resolved_skip [OF True, of k] assms True show ?thesis
    by (auto simp: effect_defs)
next
  case False
  from download_resolved_run [OF False, of k] obtain s1 logs where
    "trace s1 = trace s @ map Log logs"
    and s1: "success_log s1 = success_log s" "failed_log s1 = failed_log s"
    and run: "download_resolved e a download_dir m k s =
       (let (done, s2) = retry_loop e a (target_path e download_dir a) m k 0 s1
        in if done then (True, s2)
           else (False, append_failed a (logger (FailedAfter k a) s2)))"
    by blast
  obtain d s2 where rl: "retry_loop e a (target_path e download_dir a) m k 0 s1 = (d, s2)"
    by (cases "retry_loop e a (target_path e download_dir a) m k 0 s1")
  from retry_loop_ledgers [OF rl] s1 run rl assms False show ?thesis
    by (cases d) (auto simp: effect_defs)
qed

lemma download_resolved_files:
  assumes "download_resolved e a download_dir m k s = (r, s')"
  shows "(valid_at q m s \<longrightarrow> files s' q = files s q)
       \<and> (r \<longrightarrow> valid_at (target_path e download_dir a) m s')"
proof (cases "valid_at (target_path e download_dir a) m s")
  case True
  from download_resolved_skip [OF True, of k] assms have "r" "files s' = files s"
    by (auto simp: effect_defs)
  with True show ?thesis by (simp add: valid_at_def)
next
  case False
  from download_resolved_run [OF False, of k] obtain s1 logs where
    "trace s1 = trace s @ map Log logs"
    and s1: "files s1 = files s"
    and run: "download_resolved e a download_dir m k s =
       (let (done, s2) = retry_loop e a (target_path e download_dir a) m k 0 s1
        in if done then (True, s2)
           else (False, append_failed a (logger (FailedAfter k a) s2)))"
    by blast
  obtain d s2 where rl: "retry_loop e a (target_path e download_dir a) m k 0 s1 = (d, s2)"
    by (cases "retry_loop e a (target_path e download_dir a) m k 0 s1")
  have fs: "files s' = files s2" "r = d"
    using run rl assms by (cases d; auto simp: effect_defs)+
  from retry_loop_files [OF rl] have
    other: "\<And>p. p \<noteq> target_path e download_dir a \<Longrightarrow> files s2 p = files s1 p"
    and tgt: "d \<Longrightarrow> valid_at (target_path e download_dir a) m s2"
    by auto
  have "files s' q = files s q" if "valid_at q m s"
  proof -
    from that False have "q \<noteq> target_path e download_dir a" by auto
    then show ?thesis using other fs s1 by simp
  qed
  moreover have "valid_at (target_path e download_dir a) m s'" if r
    using that tgt fs by (simp add: valid_at_def)
  ultimately show ?thesis by blast
qed

lemma download_resolved_always_failing:
  assumes "download_resolved e a download_dir m k s = (r, s')"
    and "\<not> valid_at (target_path e download_dir a) m s"
    and "\<And>t. \<not> acceptable m (image_get e t a)"
  shows "\<not> r \<and> count_image_gets (new_events s s') = nat k"
proof -
  from download_resolved_run [OF assms(2), of k] obtain s1 logs where
    s1: "trace s1 = trace s @ map Log logs"
    and run: "download_resolved e a download_dir m k s =
       (let (done, s2) = retry_loop e a (target_path e download_dir a) m k 0 s1
        in if done then (True, s2)
           else (False, append_failed a (logger (FailedAfter k a) s2)))"
    by blast
  obtain d s2 where rl: "retry_loop e a (target_path e download_dir a) m k 0 s1 = (d, s2)"
    by (cases "retry_loop e a (target_path e download_dir a) m k 0 s1")
  from retry_loop_always_failing [OF rl assms(3)]
  have d: "\<not> d" and n: "count_image_gets (new_events s1 s2) = nat k" by simp_all
  from retry_loop_trace [OF rl] obtain evs where evs: "trace s2 = trace s1 @ evs" by blast
  with n have "count_image_gets evs = nat k" by simp
  moreover have "r = False" "trace s' = trace s @ map Log logs @ evs @ [Log (FailedAfter k a)]"
    using run rl d assms(1) s1 evs by (auto simp: effect_defs)
  ultimately show ?thesis by simp
qed

lemma extract_image_url_effects:
  assumes "extract_image_url e u s = (res, s1)"
  shows "\<exists>logs. trace s1 = trace s @ HtmlGet u # map Log logs"
    and "files s1 = files s" and "success_log s1 = success_log s"
    and "failed_log s1 = failed_log s" and "clock s1 = Suc (clock s)"
    and "res = (case html_get e (clock s) u of None \<Rightarrow> None | Some soup \<Rightarrow> pick_image_url e u soup)"
proof -
  show "\<exists>logs. trace s1 = trace s @ HtmlGet u # map Log logs"
  proof (cases "html_get e (clock s) u")
    case None
    with assms have "trace s1 = trace s @ HtmlGet u # map Log [ExtractError u]"
      by (auto simp: extract_image_url_def Let_def effect_defs)
    then show ?thesis by blast
  next
    case (Some soup)
    with assms have "trace s1 = trace s @ HtmlGet u # map Log []"
      by (auto simp: extract_image_url_def Let_def effect_defs)
    then show ?thesis by blast
  qed
qed (use assms in \<open>auto simp: extract_image_url_def Let_def effect_defs split: option.splits\<close>)

lemma resolution_effects:
  assumes "resolution e u s = (res, s1)"
  shows "\<exists>evs. trace s1 = trace s @ evs \<and> count_image_gets evs = 0
           \<and> count_file_changes evs = 0
           \<and> count_html_gets evs = (if any_ext_in u then 0 else 1)"
    and "files s1 = files s" and "success_log s1 = success_log s"
    and "failed_log s1 = failed_log s"
proof -
  show "\<exists>evs. trace s1 = trace s @ evs \<and> count_image_gets evs = 0
           \<and> count_file_changes evs = 0
           \<and> count_html_gets evs = (if any_ext_in u then 0 else 1)"
  proof (cases "any_ext_in u")
    case True
    with assms show ?thesis by (simp add: resolution_def)
  next
    case False
    with assms have "extract_image_url e u s = (res, s1)" by (simp add: resolution_def)
    from extract_image_url_effects(1) [OF this] False show ?thesis by auto
  qed
  show "files s1 = files s" "success_log s1 = success_log s" "failed_log s1 = failed_log s"
    using assms extract_image_url_effects(2-4) [of e u s res s1]
    by (auto simp: resolution_def split: if_splits)
qed

lemma download_image_unfold:
  assumes "u \<noteq> []" and "resolution e u s = (res, s1)"
  shows "download_image e u d m k s =
     (case res of
        None \<Rightarrow> (False, append_failed u (logger (CouldNotExtract u) s1))
      | Some a \<Rightarrow>
          if a = [] then (False, append_failed u (logger (CouldNotExtract u) s1))
          else download_resolved e a d m k s1)"
  using assms by (auto simp: download_image_def resolution_def split: option.splits if_splits)

lemma download_image_trace:
  assumes "download_image e u d m k s = (r, s')"
  shows "\<exists>evs. trace s' = trace s @ evs \<and> count_image_gets evs \<le> nat k
           \<and> count_html_gets evs \<le> 1"
proof (cases "u = []")
  case True
  with assms show ?thesis by (auto simp: download_image_def effect_defs)
next
  case False
  obtain res s1 where res: "resolution e u s = (res, s1)"
    by (cases "resolution e u s")
  from resolution_effects(1) [OF res] obtain ev1 where
    ev1: "trace s1 = trace s @ ev1" "count_image_gets ev1 = 0" "count_html_gets ev1 \<le> 1"
    by (auto split: if_splits)
  note unf = download_image_unfold [OF False res, of d m k]
  show ?thesis
  proof (cases "falsy res")
    case True
    with unf assms have "s' = append_failed u (logger (CouldNotExtract u) s1)"
      by (auto simp: falsy_def split: option.splits)
    with ev1 show ?thesis by (auto simp: effect_defs)
  next
    case False
    then obtain a where a: "res = Some a" "a \<noteq> []" by (auto simp: falsy_def)
    with unf assms have "download_resolved e a d m k s1 = (r, s')" by simp
    from download_resolved_trace [OF this] obtain ev2 where
      "trace s' = trace s1 @ ev2" "count_image_gets ev2 \<le> nat k" "count_html_gets ev2 = 0"
      by blast
    with ev1 show ?thesis by auto
  qed
qed


lemma download_image_ledgers:
  assumes "u \<noteq> []" and "resolution e u s = (res, s1)" and "download_image e u d m k s = (r, s')"
  shows "(falsy res \<longrightarrow> \<not> r \<and> failed_log s' = failed_log s @ [u] \<and> success_log s' = success_log s)
       \<and> (\<forall>a. res = Some a \<and> a \<noteq> [] \<longrightarrow>
             (\<not> r \<longrightarrow> failed_log s' = failed_log s @ [a] \<and> success_log s' = success_log s)
           \<and> (r \<longrightarrow> failed_log s' = failed_log s \<and>
                    success_log s' = (if valid_at (target_path e d a) m s then success_log s
                                      else success_log s @ [a])))"
proof -
  note unf = download_image_unfold [OF assms(1,2), of d m k]
  note same = resolution_effects(2-4) [OF assms(2)]
  have "\<not> r \<and> failed_log s' = failed_log s @ [u] \<and> success_log s' = success_log s"
    if "falsy res"
    using that unf assms(3) same by (auto simp: falsy_def effect_defs split: option.splits)
  moreover have "(\<not> r \<longrightarrow> failed_log s' = failed_log s @ [a] \<and> success_log s' = success_log s)
           \<and> (r \<longrightarrow> failed_log s' = failed_log s \<and>
                    success_log s' = (if valid_at (target_path e d a) m s then success_log s
                                      else success_log s @ [a]))"
    if "res = Some a" "a \<noteq> []" for a
  proof -
    from that unf assms(3) have "download_resolved e a d m k s1 = (r, s')" by simp
    from download_resolved_ledgers [OF this] same
      valid_at_files [of s1 "target_path e d a" s m]
    show ?thesis by simp
  qed
  ultimately show ?thesis by blast
qed

lemma retry_loop_step:
  assumes "int attempt < k" and "attempt_once e u nm m k attempt s = (False, s1)"
  shows "retry_loop e u nm m k attempt s = retry_loop e u nm m k (Suc attempt) s1"
  using assms by (subst retry_loop.simps) simp

lemma sublist_map_mono: "sublist xs ys \<Longrightarrow> sublist (map f xs) (map f ys)"
  unfolding sublist_def by (metis map_append)

lemma splitext_snd_sublist: "sublist (snd (splitext p)) p"
  by (simp add: splitext_def Let_def)

lemma ext_sublist_url: "sublist (snd (splitext (basename (split_query u)))) u"
proof -
  have "sublist (snd (splitext (basename (split_query u)))) (basename (split_query u))"
    by (rule splitext_snd_sublist)
  also have "sublist (basename (split_query u)) (split_query u)"
    by (simp add: basename_def)
  also have "sublist (split_query u) u"
    by (simp add: split_query_def)
  finally show ?thesis .
qed

lemma spec_is_direct_image_imp: "spec_is_direct_image u \<Longrightarrow> any_ext_in u"
proof -
  assume a: "spec_is_direct_image u"
  let ?ext = "snd (splitext (basename (split_query u)))"
  from a have "lower ?ext \<in> set IMAGE_EXTENSIONS"
    by (simp add: spec_is_direct_image_def split: prod.splits)
  moreover have "contains (lower u) (lower ?ext)"
    unfolding contains_def lower_def by (rule sublist_map_mono) (rule ext_sublist_url)
  ultimately show ?thesis
    unfolding any_ext_in_def list_ex_iff by blast
qed






subsection \<open>Files that are already there\<close>

lemma resolution_fst:
  "fst (resolution e u s) =
     (if any_ext_in u then Some u
      else case html_get e (clock s) u of None \<Rightarrow> None | Some soup \<Rightarrow> pick_image_url e u soup)"
  by (simp add: resolution_def extract_image_url_def Let_def split: option.splits)

lemma resolution_stable:
  "stable_pages e \<Longrightarrow> fst (resolution e u s) = fst (resolution e u s')"
  unfolding resolution_fst stable_pages_def by metis

lemma already_present_files:
  assumes "stable_pages e" and "already_present e a u s"
    and "\<And>q. valid_at q (min_size a) s \<Longrightarrow> files s' q = files s q"
  shows "already_present e a u s'"
proof -
  from assms(2) obtain x where x: "u \<noteq> []" "fst (resolution e u s) = Some x" "x \<noteq> []"
    "valid_at (target_path e (dir a) x) (min_size a) s"
    by (auto simp: already_present_def split: option.splits)
  from assms(3) [OF x(4)] x(4) have "valid_at (target_path e (dir a) x) (min_size a) s'"
    by (simp add: valid_at_def)
  moreover from resolution_stable [OF assms(1), of u s s'] x(2)
  have "fst (resolution e u s') = Some x" by simp
  ultimately show ?thesis using x(1,3) by (simp add: already_present_def)
qed

lemma download_image_keeps_valid:
  assumes "download_image e u d m k s = (r, s')" and "valid_at q m s"
  shows "files s' q = files s q"
proof (cases "u = []")
  case True
  with assms(1) show ?thesis by (auto simp: download_image_def effect_defs)
next
  case False
  obtain res s1 where res: "resolution e u s = (res, s1)"
    by (cases "resolution e u s")
  note unf = download_image_unfold [OF False res, of d m k]
  note same = resolution_effects(2) [OF res]
  show ?thesis
  proof (cases "falsy res")
    case True
    with unf assms(1) have "s' = append_failed u (logger (CouldNotExtract u) s1)"
      by (auto simp: falsy_def split: option.splits)
    with same show ?thesis by (simp add: effect_defs)
  next
    case False
    then obtain x where "res = Some x" "x \<noteq> []" by (auto simp: falsy_def)
    with unf assms(1) have "download_resolved e x d m k s1 = (r, s')" by simp
    from download_resolved_files [OF this, of q] assms(2) same show ?thesis
      by (simp add: valid_at_def)
  qed
qed

lemma download_image_success_target:
  assumes "download_image e u d m k s = (True, s')"
  shows "u \<noteq> [] \<and> (\<exists>x. fst (resolution e u s) = Some x \<and> x \<noteq> [] \<and> valid_at (target_path e d x) m s')"
proof -
  have ne: "u \<noteq> []"
    using assms by (auto simp: download_image_def)
  obtain res s1 where res: "resolution e u s = (res, s1)"
    by (cases "resolution e u s")
  note unf = download_image_unfold [OF ne res, of d m k]
  from unf assms obtain x where x: "res = Some x" "x \<noteq> []"
    by (auto split: option.splits if_splits)
  with unf assms have "download_resolved e x d m k s1 = (True, s')" by simp
  from download_resolved_files [OF this] have "valid_at (target_path e d x) m s'" by simp
  with ne res x show ?thesis by simp
qed

lemma download_image_skip:
  assumes "u \<noteq> []" and "resolution e u s = (Some x, s1)" and "x \<noteq> []"
    and "valid_at (target_path e d x) m s"
  shows "download_image e u d m k s = (True, logger (AlreadyExists (target_path e d x)) s1)"
proof -
  from resolution_effects(2) [OF assms(2)] assms(4)
  have "valid_at (target_path e d x) m s1" by (simp add: valid_at_def)
  from download_resolved_skip [OF this, of k] download_image_unfold [OF assms(1,2), of d m k] assms(3)
  show ?thesis by simp
qed

lemma already_present_skip:
  assumes "already_present e a u s"
    and "download_image e u (dir a) (min_size a) (retries a) s = (r, s')"
  shows "r \<and> files s' = files s \<and> success_log s' = success_log s \<and> failed_log s' = failed_log s
       \<and> (\<exists>evs. trace s' = trace s @ evs \<and> count_image_gets evs = 0 \<and> count_file_changes evs = 0)"
proof -
  obtain res s1 where res: "resolution e u s = (res, s1)"
    by (cases "resolution e u s")
  with assms(1) obtain x where x: "u \<noteq> []" "res = Some x" "x \<noteq> []"
    "valid_at (target_path e (dir a) x) (min_size a) s"
    by (auto simp: already_present_def split: option.splits)
  from download_image_skip [OF x(1) res [unfolded x(2)] x(3,4), of "retries a"] assms(2)
  have r: "r" and s': "s' = logger (AlreadyExists (target_path e (dir a) x)) s1"
    by simp_all
  from resolution_effects(1) [OF res] obtain ev1 where
    "trace s1 = trace s @ ev1" "count_image_gets ev1 = 0" "count_file_changes ev1 = 0"
    by blast
  then have "trace s' = trace s @ (ev1 @ [Log (AlreadyExists (target_path e (dir a) x))])
      \<and> count_image_gets (ev1 @ [Log (AlreadyExists (target_path e (dir a) x))]) = 0
      \<and> count_file_changes (ev1 @ [Log (AlreadyExists (target_path e (dir a) x))]) = 0"
    using s' by (simp add: effect_defs)
  then have "\<exists>evs. trace s' = trace s @ evs \<and> count_image_gets evs = 0 \<and> count_file_changes evs = 0"
    by blast
  with r s' resolution_effects(2-4) [OF res] show ?thesis
    by (simp add: effect_defs)
qed

lemma run_workers_Cons:
  assumes "run_workers e a (u # us) s = (rs, s')"
  obtains r sa rs' where "download_image e u (dir a) (min_size a) (retries a) s = (r, sa)"
    "run_workers e a us sa = (rs', s')" "rs = r # rs'"
  using assms by (auto simp: Let_def split: prod.splits)

lemma run_workers_keeps_present:
  assumes "stable_pages e"
  shows "run_workers e a us s = (rs, s') \<Longrightarrow> already_present e a u s \<Longrightarrow> already_present e a u s'"
proof (induction us arbitrary: s rs)
  case Nil
  then show ?case by simp
next
  case (Cons v vs)
  from Cons.prems(1) obtain r sa rs' where
    step: "download_image e v (dir a) (min_size a) (retries a) s = (r, sa)"
    and rest: "run_workers e a vs sa = (rs', s')"
    by (rule run_workers_Cons)
  have "already_present e a u sa"
    using assms Cons.prems(2) download_image_keeps_valid [OF step]
    by (rule already_present_files)
  with Cons.IH [OF rest] show ?case .
qed

lemma first_run_leaves_present:
  assumes "stable_pages e"
  shows "run_workers e a us s = (rs, s') \<Longrightarrow> \<forall>r\<in>set rs. r \<Longrightarrow> \<forall>u\<in>set us. already_present e a u s'"
proof (induction us arbitrary: s rs)
  case Nil
  then show ?case by simp
next
  case (Cons v vs)
  from Cons.prems(1) obtain r sa rs' where
    step: "download_image e v (dir a) (min_size a) (retries a) s = (r, sa)"
    and rest: "run_workers e a vs sa = (rs', s')" and rs: "rs = r # rs'"
    by (rule run_workers_Cons)
  from Cons.prems(2) rs have r: "r" and rs': "\<forall>b\<in>set rs'. b" by auto
  from download_image_success_target [OF step [unfolded eqTrueI [OF r]]]
  obtain x where "v \<noteq> []" "fst (resolution e v s) = Some x" "x \<noteq> []"
    "valid_at (target_path e (dir a) x) (min_size a) sa"
    by blast
  moreover from resolution_stable [OF assms, of v s sa]
  have "fst (resolution e v sa) = fst (resolution e v s)" by simp
  ultimately have "already_present e a v sa"
    by (simp add: already_present_def)
  with rest have "already_present e a v s'"
    by (rule run_workers_keeps_present [OF assms])
  with Cons.IH [OF rest rs'] show ?case by simp
qed

lemma second_run_quiet:
  assumes "stable_pages e"
  shows "run_workers e a us s = (rs, s') \<Longrightarrow> \<forall>u\<in>set us. already_present e a u s \<Longrightarrow>
    (\<forall>r\<in>set rs. r) \<and> files s' = files s \<and> success_log s' = success_log s
    \<and> failed_log s' = failed_log s
    \<and> (\<exists>evs. trace s' = trace s @ evs \<and> count_image_gets evs = 0 \<and> count_file_changes evs = 0)"
proof (induction us arbitrary: s rs)
  case Nil
  then show ?case by simp
next
  case (Cons v vs)
  from Cons.prems(1) obtain r sa rs' where
    step: "download_image e v (dir a) (min_size a) (retries a) s = (r, sa)"
    and rest: "run_workers e a vs sa = (rs', s')" and rs: "rs = r # rs'"
    by (rule run_workers_Cons)
  from Cons.prems(2) have v: "already_present e a v s" by simp
  from already_present_skip [OF v step] obtain ev1 where
    one: "r" "files sa = files s" "success_log sa = success_log s" "failed_log sa = failed_log s"
      "trace sa = trace s @ ev1" "count_image_gets ev1 = 0" "count_file_changes ev1 = 0"
    by blast
  have "\<forall>u\<in>set vs. already_present e a u sa"
  proof
    fix u assume "u \<in> set vs"
    with Cons.prems(2) have "already_present e a u s" by simp
    then show "already_present e a u sa"
      using one(2) by (intro already_present_files [OF assms, of a u s sa]) simp_all
  qed
  from Cons.IH [OF rest this] obtain ev2 where
    two: "\<forall>r\<in>set rs'. r" "files s' = files sa" "success_log s' = success_log sa"
      "failed_log s' = failed_log sa"
      "trace s' = trace sa @ ev2" "count_image_gets ev2 = 0" "count_file_changes ev2 = 0"
    by blast
  have "trace s' = trace s @ (ev1 @ ev2) \<and> count_image_gets (ev1 @ ev2) = 0
      \<and> count_file_changes (ev1 @ ev2) = 0"
    using one two by simp
  then have "\<exists>evs. trace s' = trace s @ evs \<and> count_image_gets evs = 0 \<and> count_file_changes evs = 0"
    by blast
  with one two rs show ?case by simp
qed


subsection \<open>C6: the local file name of a URL\<close>

text \<open>
  Claim C6. \<open>generate_unique_filename\<close> is a function of the URL alone (and of the MD5
  digest, a fixed function), so the same URL gives the same name on every call. Write
  the URL as \<open>d @ b @ q\<close>: \<open>b\<close> is the base name (no slash), \<open>d\<close> is empty or ends in
  a slash, \<open>q\<close> is empty or starts at the first question mark. Then the name is:
  \<^item> when \<open>b\<close> is \<open>stem.x\<close>, with no dot in \<open>x\<close> and some character of \<open>stem\<close> other
    than a dot: \<open>stem\<close>, an underscore, the first 8 characters of the digest of the whole
    URL, then \<open>.x\<close> itself (case kept) when its lower-cased form is one of
    \<open>IMAGE_EXTENSIONS\<close>, and \<open>.jpg\<close> otherwise;
  \<^item> when \<open>b\<close> has no extension (no dot, or only leading dots): \<open>b\<close>, an underscore,
    the 8 characters and \<open>.jpg\<close>.
  The 8 characters are lower-case hexadecimal digits whenever the digest is the 32
  lower-case hexadecimal digits that \<^verbatim>\<open>hexdigest()\<close> returns.
\<close>

theorem generate_unique_filename_shape:
  assumes "CHR ''?'' \<notin> set (d @ b)" and "CHR ''/'' \<notin> set b"
    and "d = [] \<or> last d = CHR ''/''" and "q = [] \<or> hd q = CHR ''?''"
  shows "(\<forall>stem x. b = stem @ ''.'' @ x \<and> CHR ''.'' \<notin> set x \<and> (\<exists>c \<in> set stem. c \<noteq> CHR ''.'') \<longrightarrow>
            generate_unique_filename e (d @ b @ q) =
              stem @ ''_'' @ take 8 (md5_hexdigest e (d @ b @ q)) @
                (if lower (''.'' @ x) \<in> set IMAGE_EXTENSIONS then ''.'' @ x else ''.jpg''))
       \<and> (\<forall>dots rest. b = dots @ rest \<and> set dots \<subseteq> {CHR ''.''} \<and> CHR ''.'' \<notin> set rest \<longrightarrow>
            generate_unique_filename e (d @ b @ q) =
              b @ ''_'' @ take 8 (md5_hexdigest e (d @ b @ q)) @ ''.jpg'')
       \<and> (is_hexdigest (md5_hexdigest e (d @ b @ q)) \<longrightarrow>
            length (take 8 (md5_hexdigest e (d @ b @ q))) = 8 \<and>
            set (take 8 (md5_hexdigest e (d @ b @ q))) \<subseteq> set ''0123456789abcdef'')"
proof -
  have sq: "split_query (d @ b @ q) = d @ b"
    using split_query_prefix [of "d @ b" q] assms(1,4) by simp
  have base: "basename (split_query (d @ b @ q)) = b"
    unfolding sq using assms(2,3) by (rule basename_dir)
  have ext: "generate_unique_filename e (d @ b @ q) =
      stem @ ''_'' @ take 8 (md5_hexdigest e (d @ b @ q)) @
        (if lower (''.'' @ x) \<in> set IMAGE_EXTENSIONS then ''.'' @ x else ''.jpg'')"
    if "b = stem @ ''.'' @ x" "CHR ''.'' \<notin> set x" "\<exists>c \<in> set stem. c \<noteq> CHR ''.''" for stem x
  proof -
    have "splitext b = (stem, ''.'' @ x)"
      unfolding that(1) using assms(2) that by (intro splitext_ext) auto
    then show ?thesis
      unfolding generate_unique_filename_def base by (simp add: Let_def)
  qed
  have noext: "generate_unique_filename e (d @ b @ q) =
      b @ ''_'' @ take 8 (md5_hexdigest e (d @ b @ q)) @ ''.jpg''"
    if "b = dots @ rest" "set dots \<subseteq> {CHR ''.''}" "CHR ''.'' \<notin> set rest" for dots rest
  proof -
    have "splitext b = (b, [])"
      unfolding that(1) using assms(2) that by (intro splitext_none) auto
    then show ?thesis
      unfolding generate_unique_filename_def base by (simp add: Let_def)
  qed
  have digest: "length (take 8 h) = 8 \<and> set (take 8 h) \<subseteq> set ''0123456789abcdef''"
    if "is_hexdigest h" for h
  proof (rule conjI)
    from that have len: "length h = 32"
      unfolding is_hexdigest_def by (rule conjunct1)
    then show "length (take 8 h) = 8" by simp
    from that have "set h \<subseteq> set ''0123456789abcdef''"
      unfolding is_hexdigest_def by (rule conjunct2)
    with set_take_subset show "set (take 8 h) \<subseteq> set ''0123456789abcdef''"
      by (rule order_trans)
  qed
  show ?thesis
  proof (intro conjI allI impI)
    fix stem x
    assume "b = stem @ ''.'' @ x \<and> CHR ''.'' \<notin> set x \<and> (\<exists>c \<in> set stem. c \<noteq> CHR ''.'')"
    then show "generate_unique_filename e (d @ b @ q) =
        stem @ ''_'' @ take 8 (md5_hexdigest e (d @ b @ q)) @
          (if lower (''.'' @ x) \<in> set IMAGE_EXTENSIONS then ''.'' @ x else ''.jpg'')"
      using ext by blast
  next
    fix dots rest
    assume "b = dots @ rest \<and> set dots \<subseteq> {CHR ''.''} \<and> CHR ''.'' \<notin> set rest"
    then show "generate_unique_filename e (d @ b @ q) =
        b @ ''_'' @ take 8 (md5_hexdigest e (d @ b @ q)) @ ''.jpg''"
      using noext by blast
  next
    assume "is_hexdigest (md5_hexdigest e (d @ b @ q))"
    then show "length (take 8 (md5_hexdigest e (d @ b @ q))) = 8"
      using digest by blast
  next
    assume "is_hexdigest (md5_hexdigest e (d @ b @ q))"
    then show "set (take 8 (md5_hexdigest e (d @ b @ q))) \<subseteq> set ''0123456789abcdef''"
      using digest by blast
  qed
qed

theorem generate_unique_filename_shape_witness:
  "generate_unique_filename example_env ''https://cdn.example.com/img/full_001.JPG?size=orig'' =
     ''full_001_01234567.JPG''"
proof -
  have low: "lower (''.'' @ ''JPG'') \<in> set IMAGE_EXTENSIONS"
    by code_simp
  have "generate_unique_filename example_env
          (''https://cdn.example.com/img/'' @ ''full_001.JPG'' @ ''?size=orig'') =
        ''full_001'' @ ''_'' @
        take 8 (md5_hexdigest example_env
          (''https://cdn.example.com/img/'' @ ''full_001.JPG'' @ ''?size=orig'')) @
        (if lower (''.'' @ ''JPG'') \<in> set IMAGE_EXTENSIONS then ''.'' @ ''JPG'' else ''.jpg'')"
    by (rule generate_unique_filename_shape [where d = "''https://cdn.example.com/img/''"
          and b = "''full_001.JPG''" and q = "''?size=orig''" and e = example_env,
          THEN conjunct1, rule_format, where stem = "''full_001''" and x = "''JPG''"])
      simp_all
  then show ?thesis unfolding if_P [OF low] by (simp add: example_env_def)
qed

subsection \<open>C8: the retry bound\<close>

text \<open>
  Claim C8, as amended. \<open>download_image\<close> is a total function: the retry loop is
  defined by recursion on the attempts that remain, so every call returns. On every
  input it makes at most \<open>max_retries\<close> image requests and at most one resolution
  request. A missing URL makes no request at all and is reported as failed; a candidate
  whose resolution gives nothing makes no image request and is reported as failed, so
  neither is retried. A candidate whose image URL never delivers an acceptable reply,
  and whose target file is not already there and valid, makes exactly \<open>max_retries\<close>
  image requests (none when \<open>max_retries\<close> is not positive) and is then reported as
  failed.
\<close>

theorem retry_bound:
  "count_image_gets (new_events s (snd (download_image e u d m k s))) \<le> nat k
   \<and> count_html_gets (new_events s (snd (download_image e u d m k s))) \<le> 1
   \<and> (u = [] \<longrightarrow> \<not> fst (download_image e u d m k s)
          \<and> count_image_gets (new_events s (snd (download_image e u d m k s))) = 0
          \<and> count_html_gets (new_events s (snd (download_image e u d m k s))) = 0)
   \<and> (u \<noteq> [] \<and> falsy (fst (resolution e u s)) \<longrightarrow> \<not> fst (download_image e u d m k s)
          \<and> count_image_gets (new_events s (snd (download_image e u d m k s))) = 0)
   \<and> (\<forall>a s1. u \<noteq> [] \<and> resolution e u s = (Some a, s1) \<and> a \<noteq> []
          \<and> \<not> valid_at (target_path e d a) m s1
          \<and> (\<forall>t. \<not> acceptable m (image_get e t a)) \<longrightarrow>
        \<not> fst (download_image e u d m k s)
          \<and> count_image_gets (new_events s (snd (download_image e u d m k s))) = nat k)"
proof -
  obtain r s' where run: "download_image e u d m k s = (r, s')"
    by (cases "download_image e u d m k s")
  obtain res s1 where res: "resolution e u s = (res, s1)"
    by (cases "resolution e u s")
  from download_image_trace [OF run] obtain evs where
    evs: "trace s' = trace s @ evs" "count_image_gets evs \<le> nat k" "count_html_gets evs \<le> 1"
    by blast
  from resolution_effects(1) [OF res] obtain ev1 where
    ev1: "trace s1 = trace s @ ev1" "count_image_gets ev1 = 0"
    by blast
  have bounds: "count_image_gets (new_events s s') \<le> nat k" "count_html_gets (new_events s s') \<le> 1"
    using evs by simp_all
  have empty: "\<not> r \<and> count_image_gets (new_events s s') = 0 \<and> count_html_gets (new_events s s') = 0"
    if "u = []"
    using that run by (auto simp: download_image_def effect_defs new_events_def)
  have unresolved: "\<not> r \<and> count_image_gets (new_events s s') = 0"
    if "u \<noteq> []" "falsy res"
  proof -
    from download_image_unfold [OF that(1) res, of d m k] that(2) run
    have "r = False" "s' = append_failed u (logger (CouldNotExtract u) s1)"
      by (auto simp: falsy_def split: option.splits)
    with ev1 show ?thesis by (simp add: effect_defs new_events_def)
  qed
  have exhausted: "\<not> r \<and> count_image_gets (new_events s s') = nat k"
    if "u \<noteq> []" "res = Some a" "a \<noteq> []" "\<not> valid_at (target_path e d a) m s1"
      "\<forall>t. \<not> acceptable m (image_get e t a)" for a
  proof -
    from download_image_unfold [OF that(1) res, of d m k] that(2,3) run
    have dr: "download_resolved e a d m k s1 = (r, s')" by simp
    from download_resolved_always_failing [OF dr that(4)] that(5)
    have r: "\<not> r" and n: "count_image_gets (new_events s1 s') = nat k" by simp_all
    from download_resolved_trace [OF dr] obtain ev2 where ev2: "trace s' = trace s1 @ ev2"
      by blast
    with n have "count_image_gets ev2 = nat k" by simp
    moreover have "new_events s s' = ev1 @ ev2" using ev1 ev2 by simp
    ultimately show ?thesis using r ev1 by simp
  qed
  show ?thesis
    unfolding run res fst_conv snd_conv
    using bounds empty unresolved exhausted by blast
qed

theorem retry_bound_witness:
  "\<not> fst (download_image example_env ''https://example.com/a.jpg'' ''gallery'' 100 3 fresh_world)
   \<and> count_image_gets (new_events fresh_world
         (snd (download_image example_env ''https://example.com/a.jpg'' ''gallery'' 100 3
                 fresh_world))) = 3"
proof -
  have ext: "any_ext_in ''https://example.com/a.jpg''"
    by code_simp
  then have res: "resolution example_env ''https://example.com/a.jpg'' fresh_world =
      (Some ''https://example.com/a.jpg'', fresh_world)"
    by (simp add: resolution_def)
  have nv: "\<not> valid_at (target_path example_env ''gallery'' ''https://example.com/a.jpg'') 100
      fresh_world"
    by (simp add: valid_at_def fresh_world_def)
  have fail: "\<forall>t. \<not> acceptable 100 (image_get example_env t ''https://example.com/a.jpg'')"
    by (simp add: example_env_def acceptable_def)
  have "\<not> fst (download_image example_env ''https://example.com/a.jpg'' ''gallery'' 100 3 fresh_world)
   \<and> count_image_gets (new_events fresh_world
         (snd (download_image example_env ''https://example.com/a.jpg'' ''gallery'' 100 3
                 fresh_world))) = nat 3"
    using res nv fail
    by (intro retry_bound [where s = fresh_world and e = example_env
          and u = "''https://example.com/a.jpg''" and d = "''gallery''" and m = 100 and k = 3,
          THEN conjunct2, THEN conjunct2, THEN conjunct2, THEN conjunct2, rule_format,
          where a = "''https://example.com/a.jpg''" and ?s1.0 = fresh_world]) simp
  then show ?thesis by simp
qed

text \<open>
  The claim as stated, without the condition on the target file, fails. Every request
  for this URL fails (the connection is refused), and a valid file is at its target
  path, left by an earlier run. The worker returns \<^verbatim>\<open>True\<close> at line 258 and makes
  no request: the outcome is not a failure.
\<close>

theorem skipped_although_every_fetch_fails:
  "\<not> acceptable 100 (image_get example_env 0 ''https://example.com/a.jpg'')
   \<and> fst (download_image example_env ''https://example.com/a.jpg'' ''gallery'' 100 3
             (fresh_world\<lparr>files := [''gallery/a_01234567.jpg'' \<mapsto> Picture 800 600]\<rparr>))
   \<and> count_image_gets
        (new_events (fresh_world\<lparr>files := [''gallery/a_01234567.jpg'' \<mapsto> Picture 800 600]\<rparr>)
           (snd (download_image example_env ''https://example.com/a.jpg'' ''gallery'' 100 3
                   (fresh_world\<lparr>files := [''gallery/a_01234567.jpg'' \<mapsto> Picture 800 600]\<rparr>)))) = 0"
  by code_simp

subsection \<open>C2: a failed outcome and the failure ledger\<close>

text \<open>
  Claim C2, as amended. A missing (empty) URL is reported as failed with a warning and
  nothing else: no line is appended to the failure ledger (lines 243-245). For every
  non-empty candidate that is reported as failed, exactly one line is appended to the
  failure ledger and none to the success ledger; the line is the candidate itself when
  its resolution gave nothing, and the image URL it resolved to when the retries were
  exhausted.
\<close>

theorem failed_outcome_recorded:
  "download_image e [] d m k s = (False, logger MissingUrl s)
   \<and> (u \<noteq> [] \<and> \<not> fst (download_image e u d m k s) \<longrightarrow>
        failed_log (snd (download_image e u d m k s)) =
          failed_log s @ [case fst (resolution e u s) of
                            None \<Rightarrow> u
                          | Some a \<Rightarrow> if a = [] then u else a]
        \<and> success_log (snd (download_image e u d m k s)) = success_log s)"
proof -
  obtain r s' where run: "download_image e u d m k s = (r, s')"
    by (cases "download_image e u d m k s")
  obtain res s1 where res: "resolution e u s = (res, s1)"
    by (cases "resolution e u s")
  have "failed_log s' = failed_log s @ [case res of None \<Rightarrow> u
                                        | Some a \<Rightarrow> if a = [] then u else a]
        \<and> success_log s' = success_log s"
    if "u \<noteq> []" "\<not> r"
    using download_image_ledgers [OF that(1) res run] that(2)
    by (cases res) (auto simp: falsy_def)
  then show ?thesis
    unfolding run res fst_conv snd_conv by (simp add: download_image_def)
qed

theorem failed_outcome_recorded_witness:
  "failed_log (snd (download_image example_env ''https://example.com/small.png'' ''gallery'' 100 2
                      fresh_world)) = [''https://example.com/small.png'']"
proof -
  have "\<not> fst (download_image example_env ''https://example.com/small.png'' ''gallery'' 100 2
                  fresh_world)"
    by code_simp
  moreover have "fst (resolution example_env ''https://example.com/small.png'' fresh_world) =
      Some ''https://example.com/small.png''"
    by code_simp
  moreover have "failed_log fresh_world = []"
    by (simp add: fresh_world_def)
  ultimately show ?thesis
    using failed_outcome_recorded [where e = example_env and u = "''https://example.com/small.png''"
        and d = "''gallery''" and m = 100 and k = 2 and s = fresh_world, THEN conjunct2]
    by simp
qed

text \<open>The claim as stated fails for the missing URL: the outcome is a failure, and the
  failure ledger stays empty.\<close>

theorem missing_url_not_recorded:
  "\<not> fst (download_image example_env [] ''gallery'' 100 3 fresh_world)
   \<and> failed_log (snd (download_image example_env [] ''gallery'' 100 3 fresh_world)) = []"
  by code_simp

subsection \<open>C10: which URL a ledger line holds\<close>



subsection \<open>C5: rejected responses in the retry loop\<close>

text \<open>
  Claim C5, as amended. Take an attempt of the retry loop whose request is answered.
  When the status is an error status (\<^verbatim>\<open>raise_for_status\<close> raises, 400 to 599), the
  attempt fails and the loop goes on with the next attempt after the backoff
  \<^verbatim>\<open>random_wait(3, 7)\<close>, which is at least as long as the jitter
  \<^verbatim>\<open>random_wait(1, 3)\<close> before each attempt. When the status is no error and the
  Content-Type does not start with \<^verbatim>\<open>image/\<close>, the attempt fails and the loop goes on
  with the next attempt at once (line 272, \<^verbatim>\<open>continue\<close>): there is no backoff. In
  both cases the state changes by the request counter and the trace only: no file is
  written or removed and no ledger is touched.
\<close>

theorem rejected_attempt_continues:
  assumes "int attempt < k" and "image_get e (clock s) u = Reply status ct b"
  shows "(400 \<le> status \<and> status < 600 \<longrightarrow>
            retry_loop e u nm m k attempt s =
              retry_loop e u nm m k (Suc attempt)
                (s\<lparr>clock := Suc (clock s),
                   trace := trace s @ [Sleep 1 3, ImageGet u, Log (DownloadError u (attempt + 1)),
                                       Sleep 3 7]\<rparr>))
       \<and> (\<not> (400 \<le> status \<and> status < 600) \<and> \<not> startswith ct ''image/'' \<longrightarrow>
            retry_loop e u nm m k attempt s =
              retry_loop e u nm m k (Suc attempt)
                (s\<lparr>clock := Suc (clock s),
                   trace := trace s @ [Sleep 1 3, ImageGet u, Log (NotAnImage u ct)]\<rparr>))"
proof (intro conjI impI)
  assume "400 \<le> status \<and> status < 600"
  then have "attempt_once e u nm m k attempt s =
      (False, s\<lparr>clock := Suc (clock s),
                 trace := trace s @ [Sleep 1 3, ImageGet u, Log (DownloadError u (attempt + 1)),
                                     Sleep 3 7]\<rparr>)"
    using assms(2) by (simp add: attempt_once_def effect_defs)
  with assms(1) show "retry_loop e u nm m k attempt s =
      retry_loop e u nm m k (Suc attempt)
        (s\<lparr>clock := Suc (clock s),
           trace := trace s @ [Sleep 1 3, ImageGet u, Log (DownloadError u (attempt + 1)),
                               Sleep 3 7]\<rparr>)"
    by (rule retry_loop_step)
next
  assume "\<not> (400 \<le> status \<and> status < 600) \<and> \<not> startswith ct ''image/''"
  then have "attempt_once e u nm m k attempt s =
      (False, s\<lparr>clock := Suc (clock s),
                 trace := trace s @ [Sleep 1 3, ImageGet u, Log (NotAnImage u ct)]\<rparr>)"
    using assms(2) by (auto simp: attempt_once_def effect_defs Let_def)
  with assms(1) show "retry_loop e u nm m k attempt s =
      retry_loop e u nm m k (Suc attempt)
        (s\<lparr>clock := Suc (clock s),
           trace := trace s @ [Sleep 1 3, ImageGet u, Log (NotAnImage u ct)]\<rparr>)"
    by (rule retry_loop_step)
qed

theorem rejected_attempt_continues_witness:
  "retry_loop example_env ''https://example.com/doc.jpg'' ''gallery/doc_01234567.jpg'' 100 2 0
     fresh_world =
   retry_loop example_env ''https://example.com/doc.jpg'' ''gallery/doc_01234567.jpg'' 100 2 (Suc 0)
     (fresh_world\<lparr>clock := Suc (clock fresh_world),
        trace := trace fresh_world @
          [Sleep 1 3, ImageGet ''https://example.com/doc.jpg'',
           Log (NotAnImage ''https://example.com/doc.jpg'' ''text/html'')]\<rparr>)"
proof -
  have 1: "int 0 < 2" by simp
  have 2: "image_get example_env (clock fresh_world) ''https://example.com/doc.jpg'' =
      Reply 200 ''text/html'' (Complete Garbage)"
    by (simp add: example_env_def)
  have 3: "\<not> (400 \<le> (200::int) \<and> (200::int) < 600) \<and> \<not> startswith ''text/html'' ''image/''"
    by (simp add: startswith_def)
  from rejected_attempt_continues [OF 1 2, THEN conjunct2, rule_format, OF 3]
  show ?thesis .
qed

text \<open>The claim as stated fails for the Content-Type rejection: between the two
  requests there is the jitter \<open>Sleep 1 3\<close> of the second attempt and no \<open>Sleep 3 7\<close>.\<close>

theorem content_type_rejection_without_backoff:
  "trace (snd (retry_loop example_env ''https://example.com/doc.jpg'' ''gallery/doc_01234567.jpg''
                 100 2 0 fresh_world)) =
     [Sleep 1 3, ImageGet ''https://example.com/doc.jpg'',
      Log (NotAnImage ''https://example.com/doc.jpg'' ''text/html''),
      Sleep 1 3, ImageGet ''https://example.com/doc.jpg'',
      Log (NotAnImage ''https://example.com/doc.jpg'' ''text/html'')]"
  by code_simp

subsection \<open>C4: when resolution is bypassed\<close>

text \<open>
  Claim C4, as amended. For a non-empty reference, resolution is bypassed exactly when
  the lower-cased reference contains one of \<open>IMAGE_EXTENSIONS\<close> somewhere (line 246
  tests for a substring, anywhere in the text). Such a reference is used unchanged and
  no resolution request is made; this holds in particular for every reference whose
  extension is a known image extension. Every other non-empty reference is first fetched
  as an HTML page, once, and the worker goes on with what \<open>extract_image_url\<close> returns.
\<close>

theorem resolution_bypass:
  assumes "u \<noteq> []"
  shows "(any_ext_in u \<longrightarrow>
            download_image e u d m k s = download_resolved e u d m k s
          \<and> count_html_gets (new_events s (snd (download_image e u d m k s))) = 0)
       \<and> (\<not> any_ext_in u \<longrightarrow>
            download_image e u d m k s =
              (case extract_image_url e u s of
                 (None, s1) \<Rightarrow> (False, append_failed u (logger (CouldNotExtract u) s1))
               | (Some a, s1) \<Rightarrow>
                   if a = [] then (False, append_failed u (logger (CouldNotExtract u) s1))
                   else download_resolved e a d m k s1)
          \<and> (\<exists>rest. new_events s (snd (download_image e u d m k s)) = HtmlGet u # rest
                \<and> count_html_gets rest = 0))
       \<and> (spec_is_direct_image u \<longrightarrow> any_ext_in u)"
proof (intro conjI impI)
  assume direct: "any_ext_in u"
  then show eq: "download_image e u d m k s = download_resolved e u d m k s"
    using assms by (simp add: download_image_def)
  obtain r s' where dr: "download_resolved e u d m k s = (r, s')"
    by (cases "download_resolved e u d m k s")
  from download_resolved_trace [OF dr] eq dr
  show "count_html_gets (new_events s (snd (download_image e u d m k s))) = 0"
    by auto
next
  assume page: "\<not> any_ext_in u"
  obtain res s1 where ex: "extract_image_url e u s = (res, s1)"
    by (cases "extract_image_url e u s")
  with page have res: "resolution e u s = (res, s1)" by (simp add: resolution_def)
  show "download_image e u d m k s =
      (case extract_image_url e u s of
         (None, s1) \<Rightarrow> (False, append_failed u (logger (CouldNotExtract u) s1))
       | (Some a, s1) \<Rightarrow>
           if a = [] then (False, append_failed u (logger (CouldNotExtract u) s1))
           else download_resolved e a d m k s1)"
    using download_image_unfold [OF assms res, of d m k] ex by (simp split: option.splits)
  from extract_image_url_effects(1) [OF ex] obtain logs where
    s1: "trace s1 = trace s @ HtmlGet u # map Log logs"
    by blast
  obtain r s' where run: "download_image e u d m k s = (r, s')"
    by (cases "download_image e u d m k s")
  have "\<exists>ev2. trace s' = trace s1 @ ev2 \<and> count_html_gets ev2 = 0"
  proof (cases "falsy res")
    case True
    with download_image_unfold [OF assms res, of d m k] run
    have "s' = append_failed u (logger (CouldNotExtract u) s1)"
      by (auto simp: falsy_def split: option.splits)
    then show ?thesis by (simp add: effect_defs)
  next
    case False
    then obtain a where "res = Some a" "a \<noteq> []" by (auto simp: falsy_def)
    with download_image_unfold [OF assms res, of d m k] run
    have "download_resolved e a d m k s1 = (r, s')" by simp
    from download_resolved_trace [OF this] show ?thesis by blast
  qed
  then obtain ev2 where "trace s' = trace s1 @ ev2" "count_html_gets ev2 = 0" by blast
  with s1 have "new_events s s' = HtmlGet u # (map Log logs @ ev2)"
    "count_html_gets (map Log logs @ ev2) = 0"
    by simp_all
  then show "\<exists>rest. new_events s (snd (download_image e u d m k s)) = HtmlGet u # rest
                \<and> count_html_gets rest = 0"
    unfolding run snd_conv by blast
next
  assume "spec_is_direct_image u"
  then show "any_ext_in u" by (rule spec_is_direct_image_imp)
qed

theorem resolution_bypass_witness:
  "count_html_gets (new_events fresh_world
     (snd (download_image example_env ''https://cdn.example.com/img/full_001.JPG?size=orig''
             ''gallery'' 100 3 fresh_world))) = 0"
proof -
  have 1: "''https://cdn.example.com/img/full_001.JPG?size=orig'' \<noteq> []" by simp
  have 2: "spec_is_direct_image ''https://cdn.example.com/img/full_001.JPG?size=orig''"
    by code_simp
  note inst = resolution_bypass [OF 1, where e = example_env and d = "''gallery''" and m = 100
      and k = 3 and s = fresh_world]
  from inst [THEN conjunct2, THEN conjunct2, rule_format, OF 2]
  have "any_ext_in ''https://cdn.example.com/img/full_001.JPG?size=orig''" .
  from inst [THEN conjunct1, rule_format, OF this, THEN conjunct2]
  show ?thesis .
qed

text \<open>The claim as stated fails in one direction: a reference with an image extension
  in its query only is not an image by its path and extension, and is still requested
  as an image, with no resolution.\<close>

theorem bypass_without_image_extension:
  "\<not> spec_is_direct_image ''https://example.com/view?img=a.png''
   \<and> trace (snd (download_image example_env ''https://example.com/view?img=a.png'' ''gallery'' 100 1
                    fresh_world)) =
       [Sleep 1 3, ImageGet ''https://example.com/view?img=a.png'',
        Log (DownloadError ''https://example.com/view?img=a.png'' 1), Sleep 3 7,
        Log (FailedAfter 1 ''https://example.com/view?img=a.png'')]"
  by code_simp

subsection \<open>C1: the ledger that a resume pass writes\<close>

text \<open>
  Claim C1 says that after a resume pass the failure ledger holds exactly the URLs that
  failed in that pass. The code rewrites the ledger with \<open>urls ! i\<close>, where \<open>i\<close> counts the
  futures in the order in which they complete (line 344 enumerates
  \<^verbatim>\<open>as_completed(futures)\<close>), not in the order of \<open>urls\<close>. Here the ledger holds an
  image URL that downloads and a page URL whose resolution fails; the page fails at
  once, before the download is through, so its future completes first. The rewritten
  ledger then holds the URL that succeeded (it is in the success ledger too), and the
  URL that failed is lost.
\<close>

theorem resume_ledger_misattributed:
  "failed_log (retry_failed_images example_env example_args [1, 0]
     (fresh_world\<lparr>failed_log := [''https://cdn.example.com/img/full_001.JPG?size=orig'',
                                   ''https://example.com/page/gone'']\<rparr>)) =
     [''https://cdn.example.com/img/full_001.JPG?size=orig'']
   \<and> success_log (retry_failed_images example_env example_args [1, 0]
     (fresh_world\<lparr>failed_log := [''https://cdn.example.com/img/full_001.JPG?size=orig'',
                                   ''https://example.com/page/gone'']\<rparr>)) =
     [''https://cdn.example.com/img/full_001.JPG?size=orig'']"
  by code_simp

subsection \<open>C7: the order of the search in a fetched page\<close>




subsection \<open>C3: the file that is already there, and running twice\<close>

text \<open>
  Claim C3, as amended. When a candidate resolves to a URL whose target file exists and
  passes \<open>is_valid_image\<close> at the configured minimum, the worker returns \<^verbatim>\<open>True\<close>
  without an image request, without writing or removing a file and without a line in
  either ledger. A candidate that is an image URL makes no network request at all; a
  page candidate has made its one resolution request before the target is known.
  Consequently, when the pages answer the same at any time and every worker of a first
  run over a candidate list returned \<^verbatim>\<open>True\<close>, a second run over the same list
  returns \<^verbatim>\<open>True\<close> for every candidate, makes no image request, changes no file and
  appends to no ledger.
\<close>

theorem skip_and_idempotence:
  "(already_present e a u s \<longrightarrow>
       fst (download_image e u (dir a) (min_size a) (retries a) s)
     \<and> files (snd (download_image e u (dir a) (min_size a) (retries a) s)) = files s
     \<and> success_log (snd (download_image e u (dir a) (min_size a) (retries a) s)) = success_log s
     \<and> failed_log (snd (download_image e u (dir a) (min_size a) (retries a) s)) = failed_log s
     \<and> count_image_gets
          (new_events s (snd (download_image e u (dir a) (min_size a) (retries a) s))) = 0
     \<and> count_file_changes
          (new_events s (snd (download_image e u (dir a) (min_size a) (retries a) s))) = 0
     \<and> count_html_gets
          (new_events s (snd (download_image e u (dir a) (min_size a) (retries a) s))) =
          (if any_ext_in u then 0 else 1))
   \<and> (stable_pages e \<and> (\<forall>r\<in>set (fst (run_workers e a urls s)). r) \<longrightarrow>
       (\<forall>r\<in>set (fst (run_workers e a urls (snd (run_workers e a urls s)))). r)
     \<and> files (snd (run_workers e a urls (snd (run_workers e a urls s)))) =
          files (snd (run_workers e a urls s))
     \<and> success_log (snd (run_workers e a urls (snd (run_workers e a urls s)))) =
          success_log (snd (run_workers e a urls s))
     \<and> failed_log (snd (run_workers e a urls (snd (run_workers e a urls s)))) =
          failed_log (snd (run_workers e a urls s))
     \<and> count_image_gets
          (new_events (snd (run_workers e a urls s))
             (snd (run_workers e a urls (snd (run_workers e a urls s))))) = 0
     \<and> count_file_changes
          (new_events (snd (run_workers e a urls s))
             (snd (run_workers e a urls (snd (run_workers e a urls s))))) = 0)"
proof (intro conjI impI)
  assume present: "already_present e a u s"
  obtain r s' where run: "download_image e u (dir a) (min_size a) (retries a) s = (r, s')"
    by (cases "download_image e u (dir a) (min_size a) (retries a) s")
  obtain res s1 where res: "resolution e u s = (res, s1)"
    by (cases "resolution e u s")
  from already_present_skip [OF present run] obtain evs where
    skip: "r" "files s' = files s" "success_log s' = success_log s" "failed_log s' = failed_log s"
      "trace s' = trace s @ evs" "count_image_gets evs = 0" "count_file_changes evs = 0"
    by blast
  from present res obtain x where x: "u \<noteq> []" "res = Some x" "x \<noteq> []"
    "valid_at (target_path e (dir a) x) (min_size a) s"
    by (auto simp: already_present_def split: option.splits)
  from download_image_skip [OF x(1) res [unfolded x(2)] x(3,4), of "retries a"] run
  have s': "s' = logger (AlreadyExists (target_path e (dir a) x)) s1" by simp
  from resolution_effects(1) [OF res] obtain ev1 where
    ev1: "trace s1 = trace s @ ev1" "count_html_gets ev1 = (if any_ext_in u then 0 else 1)"
    by blast
  have "trace s' = trace s @ (ev1 @ [Log (AlreadyExists (target_path e (dir a) x))])"
    using s' ev1(1) by (simp add: effect_defs)
  then have html: "count_html_gets (new_events s s') = (if any_ext_in u then 0 else 1)"
    using ev1(2) by (simp add: new_events_def)
  show "fst (download_image e u (dir a) (min_size a) (retries a) s)"
    "files (snd (download_image e u (dir a) (min_size a) (retries a) s)) = files s"
    "success_log (snd (download_image e u (dir a) (min_size a) (retries a) s)) = success_log s"
    "failed_log (snd (download_image e u (dir a) (min_size a) (retries a) s)) = failed_log s"
    "count_image_gets
       (new_events s (snd (download_image e u (dir a) (min_size a) (retries a) s))) = 0"
    "count_file_changes
       (new_events s (snd (download_image e u (dir a) (min_size a) (retries a) s))) = 0"
    "count_html_gets
       (new_events s (snd (download_image e u (dir a) (min_size a) (retries a) s))) =
       (if any_ext_in u then 0 else 1)"
    unfolding run fst_conv snd_conv using skip html by simp_all
next
  assume hyp: "stable_pages e \<and> (\<forall>r\<in>set (fst (run_workers e a urls s)). r)"
  obtain rs s1 where one: "run_workers e a urls s = (rs, s1)"
    by (cases "run_workers e a urls s")
  obtain rs2 s2 where two: "run_workers e a urls s1 = (rs2, s2)"
    by (cases "run_workers e a urls s1")
  from hyp one have stable: "stable_pages e" and ok: "\<forall>r\<in>set rs. r" by auto
  from first_run_leaves_present [OF stable one ok]
  have "\<forall>u\<in>set urls. already_present e a u s1" .
  from second_run_quiet [OF stable two this] obtain evs where
    quiet: "\<forall>r\<in>set rs2. r" "files s2 = files s1" "success_log s2 = success_log s1"
      "failed_log s2 = failed_log s1"
      "trace s2 = trace s1 @ evs" "count_image_gets evs = 0" "count_file_changes evs = 0"
    by blast
  show "\<forall>r\<in>set (fst (run_workers e a urls (snd (run_workers e a urls s)))). r"
    "files (snd (run_workers e a urls (snd (run_workers e a urls s)))) =
       files (snd (run_workers e a urls s))"
    "success_log (snd (run_workers e a urls (snd (run_workers e a urls s)))) =
       success_log (snd (run_workers e a urls s))"
    "failed_log (snd (run_workers e a urls (snd (run_workers e a urls s)))) =
       failed_log (snd (run_workers e a urls s))"
    "count_image_gets
       (new_events (snd (run_workers e a urls s))
          (snd (run_workers e a urls (snd (run_workers e a urls s))))) = 0"
    "count_file_changes
       (new_events (snd (run_workers e a urls s))
          (snd (run_workers e a urls (snd (run_workers e a urls s))))) = 0"
    unfolding one two fst_conv snd_conv using quiet by simp_all
qed

theorem skip_and_idempotence_witness:
  "count_image_gets
     (new_events (snd (run_workers example_env example_args [''https://example.com/page/x''] fresh_world))
        (snd (run_workers example_env example_args [''https://example.com/page/x'']
               (snd (run_workers example_env example_args [''https://example.com/page/x'']
                      fresh_world))))) = 0
   \<and> failed_log
        (snd (run_workers example_env example_args [''https://example.com/page/x'']
               (snd (run_workers example_env example_args [''https://example.com/page/x'']
                      fresh_world)))) =
      failed_log (snd (run_workers example_env example_args [''https://example.com/page/x'']
                         fresh_world))"
proof -
  have stable: "stable_pages example_env"
    by (simp add: stable_pages_def example_env_def)
  have "fst (run_workers example_env example_args [''https://example.com/page/x''] fresh_world) =
      [True]"
    by code_simp
  then have ok: "\<forall>r\<in>set (fst (run_workers example_env example_args
      [''https://example.com/page/x''] fresh_world)). r"
    by simp
  from skip_and_idempotence [where e = example_env and a = example_args
      and urls = "[''https://example.com/page/x'']" and s = fresh_world,
      THEN conjunct2, rule_format, OF conjI, OF stable ok]
  show ?thesis by blast
qed

text \<open>The claim as stated, for every candidate set, fails on a set whose one candidate
  failed in the first run: the 50 by 50 image is downloaded, rejected and removed again
  three times in the second run, and its URL is appended to the failure ledger a second
  time.\<close>

theorem second_run_fails_again:
  "failed_log
     (snd (run_workers example_env example_args [''https://example.com/small.png'']
            (snd (run_workers example_env example_args [''https://example.com/small.png'']
                   fresh_world)))) =
     [''https://example.com/small.png'', ''https://example.com/small.png'']
   \<and> count_file_changes
        (new_events
           (snd (run_workers example_env example_args [''https://example.com/small.png'']
                  fresh_world))
           (snd (run_workers example_env example_args [''https://example.com/small.png'']
                  (snd (run_workers example_env example_args [''https://example.com/small.png'']
                         fresh_world))))) = 6"
  by code_simp

end
